theory Spec2Isabelle
  imports Complex_Main "HOL-Library.Sublist"
begin

section \<open>Data model\<close>

text \<open>
  The script \<^verbatim>\<open>danish-stt.py\<close> post-processes the segment stream of a speech
  recogniser. Python strings are sequences of Unicode code points, so a string is a list
  of code points here and \<open>length\<close> counts what Python's \<^verbatim>\<open>len\<close> counts. Python's
  floats are read as real numbers (no rounding of sums and differences, no NaN, no
  infinity); Python's integers are \<open>nat\<close> or \<open>int\<close>.
\<close>

type_synonym pystr = "nat list"

definition lit :: "string \<Rightarrow> pystr" where
  "lit s = map of_char s"

text \<open>
  A segment is the dictionary the recogniser returns for one chunk of speech. The keys
  \<^verbatim>\<open>'start'\<close>, \<^verbatim>\<open>'end'\<close> and \<^verbatim>\<open>'text'\<close> are read with \<^verbatim>\<open>seg[...]\<close>; the key
  \<^verbatim>\<open>'avg_logprob'\<close> is read with \<^verbatim>\<open>seg.get\<close> and a default, so it may be absent.
\<close>

record segment =
  seg_start :: real
  seg_end :: real
  seg_text :: pystr
  avg_logprob :: "real option"

section \<open>Speaker attribution\<close>

definition INTERVIEWER :: pystr where
  "INTERVIEWER = lit ''INTERVIEWER''"

definition PARTICIPANT :: pystr where
  "PARTICIPANT = lit ''PARTICIPANT''"

text \<open>The three local variables of \<^verbatim>\<open>detect_speaker_changes\<close> that the loop updates.\<close>

record attributor =
  speakers :: "pystr list"
  current_speaker :: pystr
  last_speaker_change_time :: real

text \<open>
  One iteration of \<^verbatim>\<open>for i, segment in enumerate(segments)\<close>. The read
  \<^verbatim>\<open>segments[i-1]\<close> happens only for \<open>i \<ge> 1\<close>, and \<open>i\<close> ranges over the indices of the
  list, so both list accesses are in range.
\<close>

definition attributor_step ::
  "segment list \<Rightarrow> real \<Rightarrow> real \<Rightarrow> nat \<Rightarrow> attributor \<Rightarrow> attributor" where
  "attributor_step segments silence_threshold min_speaker_time i st =
     (if i = 0 then st\<lparr>speakers := speakers st @ [current_speaker st]\<rparr>
      else
        let prev_end = seg_end (segments ! (i - 1));
            current_start = seg_start (segments ! i);
            gap = current_start - prev_end;
            time_since_last_change = current_start - last_speaker_change_time st;
            st' = (if gap > silence_threshold \<and> time_since_last_change > min_speaker_time
                   then st\<lparr>current_speaker :=
                             (if current_speaker st = INTERVIEWER then PARTICIPANT
                              else INTERVIEWER),
                           last_speaker_change_time := current_start\<rparr>
                   else st)
        in st'\<lparr>speakers := speakers st' @ [current_speaker st']\<rparr>)"

definition attributor_init :: attributor where
  "attributor_init =
     \<lparr>speakers = [], current_speaker = INTERVIEWER, last_speaker_change_time = 0\<rparr>"

text \<open>The state of the loop after its first \<open>n\<close> iterations.\<close>

definition attributor_run :: "segment list \<Rightarrow> real \<Rightarrow> real \<Rightarrow> nat \<Rightarrow> attributor" where
  "attributor_run segments silence_threshold min_speaker_time n =
     fold (attributor_step segments silence_threshold min_speaker_time) [0..<n]
       attributor_init"

definition detect_speaker_changes :: "segment list \<Rightarrow> real \<Rightarrow> real \<Rightarrow> pystr list" where
  "detect_speaker_changes segments silence_threshold min_speaker_time =
     speakers (attributor_run segments silence_threshold min_speaker_time (length segments))"

section \<open>Formatting utilities\<close>

text \<open>
  Python's \<^verbatim>\<open>//\<close> and \<^verbatim>\<open>%\<close> on floats are floor division and its remainder (the
  remainder takes the sign of the divisor); \<^verbatim>\<open>int\<close> truncates toward zero. The source
  divides by the constants 60 and 3600 only, so no division raises.
\<close>

definition py_floordiv :: "real \<Rightarrow> real \<Rightarrow> real" where
  "py_floordiv a b = of_int \<lfloor>a / b\<rfloor>"

definition py_mod :: "real \<Rightarrow> real \<Rightarrow> real" where
  "py_mod a b = a - b * of_int \<lfloor>a / b\<rfloor>"

definition py_int :: "real \<Rightarrow> int" where
  "py_int x = (if 0 \<le> x then \<lfloor>x\<rfloor> else \<lceil>x\<rceil>)"

text \<open>The decimal digits of a natural number, as \<^verbatim>\<open>str\<close> prints them.\<close>

fun str_nat :: "nat \<Rightarrow> pystr" where
  "str_nat n = (if n < 10 then [48 + n] else str_nat (n div 10) @ [48 + n mod 10])"

declare str_nat.simps [simp del]

text \<open>
  The format specification \<^verbatim>\<open>02d\<close>: a minus sign for a negative number, then the
  digits, padded with zeros after the sign to a total width of at least 2.
\<close>

definition format_02d :: "int \<Rightarrow> pystr" where
  "format_02d x =
     (if x < 0 then 45 # str_nat (nat (- x))
      else if x < 10 then 48 # str_nat (nat x)
      else str_nat (nat x))"

definition format_timestamp :: "real \<Rightarrow> pystr" where
  "format_timestamp seconds =
     (let minutes = py_int (py_floordiv seconds 60);
          seconds = py_int (py_mod seconds 60)
      in format_02d minutes @ lit '':'' @ format_02d seconds)"

definition format_duration :: "real \<Rightarrow> pystr" where
  "format_duration seconds =
     (let hours = py_int (py_floordiv seconds 3600);
          minutes = py_int (py_floordiv (py_mod seconds 3600) 60);
          seconds = py_int (py_mod seconds 60)
      in if hours > 0
         then format_02d hours @ lit '':'' @ format_02d minutes @ lit '':'' @ format_02d seconds
         else format_02d minutes @ lit '':'' @ format_02d seconds)"

text \<open>
  The reading of "zero-padded to width 2" that the formatting claims are compared with:
  the decimal digits, with zeros put in front until there are two characters.
\<close>

definition zero_pad2 :: "nat \<Rightarrow> pystr" where
  "zero_pad2 n = replicate (2 - length (str_nat n)) 48 @ str_nat n"

section \<open>Content markers\<close>

text \<open>
  The characters that \<^verbatim>\<open>str.strip()\<close> and \<^verbatim>\<open>str.split()\<close> treat as whitespace: the
  code points for which \<^verbatim>\<open>str.isspace\<close> holds.
\<close>

definition isspace :: "nat \<Rightarrow> bool" where
  "isspace c \<longleftrightarrow>
     (9 \<le> c \<and> c \<le> 13) \<or> (28 \<le> c \<and> c \<le> 32) \<or> c = 133 \<or> c = 160 \<or> c = 5760 \<or>
     (8192 \<le> c \<and> c \<le> 8202) \<or> c = 8232 \<or> c = 8233 \<or> c = 8239 \<or> c = 8287 \<or>
     c = 12288"

definition strip :: "pystr \<Rightarrow> pystr" where
  "strip s = rev (dropWhile isspace (rev (dropWhile isspace s)))"

text \<open>
  \<^verbatim>\<open>s.replace(old, new)\<close>: the occurrences of \<open>old\<close> are found from left to right and do
  not overlap. With an empty \<open>old\<close>, Python puts \<open>new\<close> before every character and at
  the end.
\<close>

fun str_replace :: "pystr \<Rightarrow> pystr \<Rightarrow> pystr \<Rightarrow> pystr" where
  "str_replace old new [] = (if old = [] then new else [])"
| "str_replace old new (c # cs) =
     (if old = [] then new @ c # str_replace old new cs
      else if prefix old (c # cs)
      then new @ str_replace old new (drop (length old - 1) cs)
      else c # str_replace old new cs)"

definition add_content_markers :: "pystr \<Rightarrow> pystr" where
  "add_content_markers text =
     (if length (strip text) < 3 then lit ''[UNCLEAR]''
      else
        let markers = text;
            markers = str_replace (lit ''...'') (lit ''[PAUSE]'') markers;
            markers = str_replace (lit ''  '') (lit '' '') markers
        in strip markers)"

section \<open>Interview statistics\<close>

text \<open>
  \<^verbatim>\<open>s.split()\<close>: the maximal runs of characters that are not whitespace. The scan
  carries the word read so far.
\<close>

fun split_scan :: "pystr \<Rightarrow> pystr \<Rightarrow> pystr list" where
  "split_scan w [] = (if w = [] then [] else [w])"
| "split_scan w (c # cs) =
     (if isspace c then (if w = [] then split_scan [] cs else w # split_scan [] cs)
      else split_scan (w @ [c]) cs)"

definition split :: "pystr \<Rightarrow> pystr list" where
  "split s = split_scan [] s"

text \<open>
  The dictionary returned by the recogniser: \<^verbatim>\<open>'duration'\<close> is read with a default and
  may be absent; \<^verbatim>\<open>'segments'\<close> is always there.
\<close>

record result =
  res_duration :: "real option"
  res_segments :: "segment list"

datatype error = ZeroDivisionError

definition py_truediv :: "real \<Rightarrow> real \<Rightarrow> error + real" where
  "py_truediv a b = (if b = 0 then Inl ZeroDivisionError else Inr (a / b))"

text \<open>
  \<^verbatim>\<open>round(x, ndigits)\<close> on real numbers: to the nearest multiple of \<open>10\<^sup>-\<^sup>n\<close>, a tie
  going to the even one.
\<close>

definition round_half_even :: "real \<Rightarrow> int" where
  "round_half_even y =
     (let f = \<lfloor>y\<rfloor>; d = y - of_int f
      in if d < 1 / 2 then f else if d > 1 / 2 then f + 1
         else if even f then f else f + 1)"

definition py_round :: "real \<Rightarrow> nat \<Rightarrow> real" where
  "py_round x ndigits = of_int (round_half_even (x * 10 ^ ndigits)) / 10 ^ ndigits"

text \<open>\<^verbatim>\<open>max\<close> and \<^verbatim>\<open>min\<close> of a list; the source calls them on non-empty lists only, and
  nothing is said here about their value on the empty list.\<close>

fun py_max :: "real list \<Rightarrow> real" where
  "py_max (x # xs) = fold (\<lambda>y m. if y > m then y else m) xs x"

fun py_min :: "real list \<Rightarrow> real" where
  "py_min (x # xs) = fold (\<lambda>y m. if y < m then y else m) xs x"

text \<open>
  The local variables of \<^verbatim>\<open>main\<close> that hold the statistics (lines 342 to 367), each
  as a function of the segment list.
\<close>

definition total_words :: "segment list \<Rightarrow> nat" where
  "total_words segments = sum_list (map (\<lambda>seg. length (split (seg_text seg))) segments)"

definition avg_words_per_segment :: "segment list \<Rightarrow> real" where
  "avg_words_per_segment segments =
     (if segments \<noteq> [] then real (total_words segments) / real (length segments) else 0)"

definition confidences :: "segment list \<Rightarrow> real list" where
  "confidences segments =
     map (\<lambda>seg. case avg_logprob seg of Some c \<Rightarrow> c | None \<Rightarrow> - 2) segments"

definition avg_confidence :: "segment list \<Rightarrow> real" where
  "avg_confidence segments =
     (if confidences segments \<noteq> []
      then sum_list (confidences segments) / real (length (confidences segments))
      else - 2)"

definition high_confidence_segments :: "segment list \<Rightarrow> nat" where
  "high_confidence_segments segments =
     length (filter (\<lambda>c. c > - 0.5) (confidences segments))"

definition medium_confidence_segments :: "segment list \<Rightarrow> nat" where
  "medium_confidence_segments segments =
     length (filter (\<lambda>c. - 1.0 \<le> c \<and> c \<le> - 0.5) (confidences segments))"

definition low_confidence_segments :: "segment list \<Rightarrow> nat" where
  "low_confidence_segments segments =
     length (filter (\<lambda>c. c < - 1.0) (confidences segments))"

definition segment_lengths :: "segment list \<Rightarrow> real list" where
  "segment_lengths segments = map (\<lambda>seg. seg_end seg - seg_start seg) segments"

definition avg_segment_length :: "segment list \<Rightarrow> real" where
  "avg_segment_length segments =
     (if segment_lengths segments \<noteq> []
      then sum_list (segment_lengths segments) / real (length (segment_lengths segments))
      else 0)"

definition longest_segment :: "segment list \<Rightarrow> real" where
  "longest_segment segments =
     (if segment_lengths segments \<noteq> [] then py_max (segment_lengths segments) else 0)"

definition shortest_segment :: "segment list \<Rightarrow> real" where
  "shortest_segment segments =
     (if segment_lengths segments \<noteq> [] then py_min (segment_lengths segments) else 0)"

text \<open>The body of \<^verbatim>\<open>for i in range(1, len(segments))\<close> and the loop itself.\<close>

definition pauses_step :: "segment list \<Rightarrow> nat \<Rightarrow> real list \<Rightarrow> real list" where
  "pauses_step segments i pauses =
     (let pause_duration = seg_start (segments ! i) - seg_end (segments ! (i - 1))
      in if pause_duration > 0 then pauses @ [pause_duration] else pauses)"

definition pauses :: "segment list \<Rightarrow> real list" where
  "pauses segments = fold (pauses_step segments) [1..<length segments] []"

definition avg_pause_duration :: "segment list \<Rightarrow> real" where
  "avg_pause_duration segments =
     (if pauses segments \<noteq> []
      then sum_list (pauses segments) / real (length (pauses segments))
      else 0)"

definition longest_pause :: "segment list \<Rightarrow> real" where
  "longest_pause segments = (if pauses segments \<noteq> [] then py_max (pauses segments) else 0)"

definition total_pause_time :: "segment list \<Rightarrow> real" where
  "total_pause_time segments = sum_list (pauses segments)"

definition get_audio_quality_estimate :: "result \<Rightarrow> pystr" where
  "get_audio_quality_estimate result =
     (let segments = res_segments result
      in if segments = [] then lit ''Unknown''
         else
           let avg_confidence =
                 sum_list (map (\<lambda>seg. case avg_logprob seg of Some c \<Rightarrow> c | None \<Rightarrow> - 1)
                             segments) / real (length segments)
           in if avg_confidence > - 0.5 then lit ''High''
              else if avg_confidence > - 1.0 then lit ''Medium''
              else lit ''Low'')"

text \<open>The expression stored under \<^verbatim>\<open>'speech_vs_pause_ratio'\<close> (line 400).\<close>

definition speech_vs_pause_ratio :: "real \<Rightarrow> segment list \<Rightarrow> real" where
  "speech_vs_pause_ratio audio_duration segments =
     (if audio_duration > 0
      then py_round ((audio_duration - total_pause_time segments) / audio_duration * 100) 1
      else 0)"

text \<open>
  The statistics entries of the \<^verbatim>\<open>metadata\<close> dictionary (lines 378 to 401); the
  entries for the names, the date, the language and the interview type are constants of
  the configuration and are left out. Python evaluates the entries in the order in which
  they are written, so the first division that raises ends the construction.
\<close>

record metadata =
  md_duration :: pystr
  md_audio_quality :: pystr
  md_total_segments :: nat
  md_total_words :: nat
  md_avg_words_per_segment :: real
  md_avg_confidence :: real
  md_high_confidence_pct :: real
  md_medium_confidence_pct :: real
  md_low_confidence_pct :: real
  md_avg_segment_length :: real
  md_longest_segment :: real
  md_shortest_segment :: real
  md_total_pauses :: nat
  md_avg_pause_duration :: real
  md_longest_pause :: real
  md_total_pause_time :: real
  md_speech_vs_pause_ratio :: real

definition build_metadata :: "result \<Rightarrow> error + metadata" where
  "build_metadata result =
     (let audio_duration = (case res_duration result of Some d \<Rightarrow> d | None \<Rightarrow> 0);
          segments = res_segments result
      in case py_truediv (real (high_confidence_segments segments)) (real (length segments)) of
           Inl e \<Rightarrow> Inl e
         | Inr high \<Rightarrow>
        (case py_truediv (real (medium_confidence_segments segments)) (real (length segments)) of
           Inl e \<Rightarrow> Inl e
         | Inr medium \<Rightarrow>
        (case py_truediv (real (low_confidence_segments segments)) (real (length segments)) of
           Inl e \<Rightarrow> Inl e
         | Inr low \<Rightarrow>
             Inr \<lparr>md_duration = format_duration audio_duration,
                  md_audio_quality = get_audio_quality_estimate result,
                  md_total_segments = length segments,
                  md_total_words = total_words segments,
                  md_avg_words_per_segment = py_round (avg_words_per_segment segments) 1,
                  md_avg_confidence = py_round (avg_confidence segments) 3,
                  md_high_confidence_pct = py_round (high * 100) 1,
                  md_medium_confidence_pct = py_round (medium * 100) 1,
                  md_low_confidence_pct = py_round (low * 100) 1,
                  md_avg_segment_length = py_round (avg_segment_length segments) 2,
                  md_longest_segment = py_round (longest_segment segments) 2,
                  md_shortest_segment = py_round (shortest_segment segments) 2,
                  md_total_pauses = length (pauses segments),
                  md_avg_pause_duration = py_round (avg_pause_duration segments) 2,
                  md_longest_pause = py_round (longest_pause segments) 2,
                  md_total_pause_time = py_round (total_pause_time segments) 2,
                  md_speech_vs_pause_ratio = speech_vs_pause_ratio audio_duration segments\<rparr>)))"

section \<open>Concrete inputs\<close>

text \<open>Two segments separated by a pause of three seconds.\<close>

definition scenario_B :: "segment list" where
  "scenario_B =
     [\<lparr>seg_start = 0.0, seg_end = 2.0, seg_text = lit ''A'', avg_logprob = Some (- 0.2)\<rparr>,
      \<lparr>seg_start = 5.0, seg_end = 7.0, seg_text = lit ''B'', avg_logprob = Some (- 0.2)\<rparr>]"

text \<open>Two adjacent segments, the second without a confidence score.\<close>

definition partly_scored :: "segment list" where
  "partly_scored =
     [\<lparr>seg_start = 0.0, seg_end = 1.0, seg_text = lit ''A'', avg_logprob = Some (- 0.2)\<rparr>,
      \<lparr>seg_start = 1.0, seg_end = 2.0, seg_text = lit ''B'', avg_logprob = None\<rparr>]"

text \<open>A recording of one second whose two segments lie four seconds apart.\<close>

definition long_pause_result :: result where
  "long_pause_result =
     \<lparr>res_duration = Some 1,
      res_segments =
        [\<lparr>seg_start = 0, seg_end = 1, seg_text = lit ''A'', avg_logprob = Some (- 0.2)\<rparr>,
         \<lparr>seg_start = 5, seg_end = 6, seg_text = lit ''B'', avg_logprob = Some (- 0.2)\<rparr>]\<rparr>"

text \<open>
  What "a segment without a score is treated as having the score \<open>d\<close>" is compared
  with: the same segment with \<open>d\<close> written in where the score is absent.
\<close>

definition score_absent_as :: "real \<Rightarrow> segment \<Rightarrow> segment" where
  "score_absent_as d seg =
     seg\<lparr>avg_logprob := Some (case avg_logprob seg of Some c \<Rightarrow> c | None \<Rightarrow> d)\<rparr>"

text \<open>
  Four segments: the second starts where the first ends, the third starts before the
  second has ended, and the fourth starts one second after the third.
\<close>

definition scenario_D :: result where
  "scenario_D =
     \<lparr>res_duration = Some 6,
      res_segments =
        [\<lparr>seg_start = 0, seg_end = 2, seg_text = lit ''A'', avg_logprob = Some (- 0.2)\<rparr>,
         \<lparr>seg_start = 2, seg_end = 3, seg_text = lit ''B'', avg_logprob = Some (- 0.2)\<rparr>,
         \<lparr>seg_start = 2.5, seg_end = 4, seg_text = lit ''C'', avg_logprob = Some (- 0.2)\<rparr>,
         \<lparr>seg_start = 5, seg_end = 6, seg_text = lit ''D'', avg_logprob = Some (- 0.2)\<rparr>]\<rparr>"

text \<open>
  The last change time read off the labels: the start of the latest segment before
  position \<open>i\<close> whose label differs from the label of its predecessor, and 0 when there
  is none.
\<close>

fun last_change_before :: "pystr list \<Rightarrow> segment list \<Rightarrow> nat \<Rightarrow> real" where
  "last_change_before labels segs 0 = 0"
| "last_change_before labels segs (Suc j) =
     (if 1 \<le> j \<and> labels ! j \<noteq> labels ! (j - 1) then seg_start (segs ! j)
      else last_change_before labels segs j)"

text \<open>Four segments with long pauses before the second and the fourth.\<close>

definition three_turns :: "segment list" where
  "three_turns =
     [\<lparr>seg_start = 0, seg_end = 1, seg_text = lit ''A'', avg_logprob = Some (- 0.2)\<rparr>,
      \<lparr>seg_start = 5, seg_end = 6, seg_text = lit ''B'', avg_logprob = Some (- 0.2)\<rparr>,
      \<lparr>seg_start = 6.5, seg_end = 7, seg_text = lit ''C'', avg_logprob = Some (- 0.2)\<rparr>,
      \<lparr>seg_start = 10, seg_end = 11, seg_text = lit ''D'', avg_logprob = Some (- 0.2)\<rparr>]"

section \<open>Properties of the speaker attribution\<close>

lemma attributor_run_0:
  "attributor_run segs thr mst 0 = attributor_init"
  by (simp add: attributor_run_def)

lemma attributor_run_Suc:
  "attributor_run segs thr mst (Suc n) =
     attributor_step segs thr mst n (attributor_run segs thr mst n)"
  by (simp add: attributor_run_def)

lemma speakers_step:
  "speakers (attributor_step segs thr mst i st) =
     speakers st @ [current_speaker (attributor_step segs thr mst i st)]"
  by (simp add: attributor_step_def Let_def)

lemma length_speakers_run:
  "length (speakers (attributor_run segs thr mst n)) = n"
proof (induction n)
  case 0
  show ?case by (simp add: attributor_run_0 attributor_init_def)
next
  case (Suc n)
  have "length (speakers (attributor_run segs thr mst (Suc n))) =
        Suc (length (speakers (attributor_run segs thr mst n)))"
    unfolding attributor_run_Suc by (subst speakers_step) simp
  with Suc show ?case by simp
qed

lemma current_speaker_step_role:
  assumes "current_speaker st \<in> {INTERVIEWER, PARTICIPANT}"
  shows "current_speaker (attributor_step segs thr mst i st) \<in> {INTERVIEWER, PARTICIPANT}"
  using assms by (auto simp: attributor_step_def Let_def)

lemma current_speaker_run_role:
  "current_speaker (attributor_run segs thr mst n) \<in> {INTERVIEWER, PARTICIPANT}"
proof (induction n)
  case 0
  show ?case by (simp add: attributor_run_0 attributor_init_def)
next
  case (Suc n)
  then show ?case
    unfolding attributor_run_Suc by (rule current_speaker_step_role)
qed

text \<open>The label list only grows: entry \<open>i\<close> is the speaker current after iteration \<open>i\<close>.\<close>

lemma speakers_run_nth:
  "i < n \<Longrightarrow>
     speakers (attributor_run segs thr mst n) ! i =
     current_speaker (attributor_run segs thr mst (Suc i))"
proof (induction n)
  case 0
  then show ?case by simp
next
  case (Suc n)
  have eq: "speakers (attributor_run segs thr mst (Suc n)) =
            speakers (attributor_run segs thr mst n) @
            [current_speaker (attributor_run segs thr mst (Suc n))]"
    unfolding attributor_run_Suc by (rule speakers_step)
  show ?case
  proof (cases "i < n")
    case True
    with Suc.IH show ?thesis
      by (simp add: eq nth_append length_speakers_run)
  next
    case False
    with Suc.prems have "i = n" by simp
    then show ?thesis
      by (simp add: eq nth_append length_speakers_run)
  qed
qed

lemma detect_speaker_changes_nth:
  "i < length segs \<Longrightarrow>
     detect_speaker_changes segs thr mst ! i =
     current_speaker (attributor_run segs thr mst (Suc i))"
  by (simp add: detect_speaker_changes_def speakers_run_nth)

lemma length_detect_speaker_changes:
  "length (detect_speaker_changes segs thr mst) = length segs"
  by (simp add: detect_speaker_changes_def length_speakers_run)

lemma current_speaker_run_1:
  "current_speaker (attributor_run segs thr mst (Suc 0)) = INTERVIEWER"
  by (simp add: attributor_run_Suc attributor_run_0 attributor_step_def attributor_init_def)

text \<open>
  C6. For every segment sequence of length \<open>N\<close> and every value of the two parameters,
  \<^verbatim>\<open>detect_speaker_changes\<close> returns a list of length exactly \<open>N\<close>, each of its elements
  is one of the two strings \<^verbatim>\<open>"INTERVIEWER"\<close> and \<^verbatim>\<open>"PARTICIPANT"\<close>, and when \<open>N \<ge> 1\<close>
  its first element is \<^verbatim>\<open>"INTERVIEWER"\<close>.
\<close>

theorem detect_speaker_changes_shape:
  "length (detect_speaker_changes segs thr mst) = length segs \<and>
   (\<forall>l \<in> set (detect_speaker_changes segs thr mst).
      l = lit ''INTERVIEWER'' \<or> l = lit ''PARTICIPANT'') \<and>
   (1 \<le> length segs \<longrightarrow> detect_speaker_changes segs thr mst ! 0 = lit ''INTERVIEWER'')"
proof (intro conjI ballI impI)
  show "length (detect_speaker_changes segs thr mst) = length segs"
    by (rule length_detect_speaker_changes)
next
  fix l
  assume "l \<in> set (detect_speaker_changes segs thr mst)"
  then obtain i where i: "i < length segs" and l: "l = detect_speaker_changes segs thr mst ! i"
    by (auto simp: in_set_conv_nth length_detect_speaker_changes)
  have "current_speaker (attributor_run segs thr mst (Suc i)) \<in> {INTERVIEWER, PARTICIPANT}"
    by (rule current_speaker_run_role)
  with i l show "l = lit ''INTERVIEWER'' \<or> l = lit ''PARTICIPANT''"
    by (simp add: detect_speaker_changes_nth INTERVIEWER_def PARTICIPANT_def)
next
  assume "1 \<le> length segs"
  then have "0 < length segs" by (cases segs) simp_all
  then show "detect_speaker_changes segs thr mst ! 0 = lit ''INTERVIEWER''"
    by (simp add: detect_speaker_changes_nth current_speaker_run_1 INTERVIEWER_def)
qed


lemma detect_speaker_changes_scenario_B:
  "detect_speaker_changes scenario_B 1.2 1.0 = [lit ''INTERVIEWER'', lit ''PARTICIPANT'']"
  by (simp add: detect_speaker_changes_def attributor_run_def attributor_step_def
      attributor_init_def scenario_B_def INTERVIEWER_def PARTICIPANT_def Let_def)

theorem detect_speaker_changes_shape_witness:
  "1 \<le> length scenario_B \<and>
   length (detect_speaker_changes scenario_B 1.2 1.0) = length scenario_B \<and>
   (detect_speaker_changes scenario_B 1.2 1.0 ! 1 = lit ''INTERVIEWER'' \<or>
    detect_speaker_changes scenario_B 1.2 1.0 ! 1 = lit ''PARTICIPANT'') \<and>
   detect_speaker_changes scenario_B 1.2 1.0 ! 0 = lit ''INTERVIEWER''"
proof -
  have h: "1 \<le> length scenario_B"
    by (simp add: scenario_B_def)
  note shape = detect_speaker_changes_shape [of scenario_B "1.2" "1.0"]
  have "1 < length (detect_speaker_changes scenario_B 1.2 1.0)"
    using shape by (simp add: scenario_B_def)
  then have "detect_speaker_changes scenario_B 1.2 1.0 ! 1 \<in>
             set (detect_speaker_changes scenario_B 1.2 1.0)"
    by (rule nth_mem)
  with shape h show ?thesis by blast
qed


subsection \<open>When the speaker flips\<close>

lemma roles_distinct: "INTERVIEWER \<noteq> PARTICIPANT"
  by (simp add: INTERVIEWER_def PARTICIPANT_def lit_def)

lemma attributor_step_flip:
  assumes "1 \<le> i" and "current_speaker st \<in> {INTERVIEWER, PARTICIPANT}"
  shows "(current_speaker (attributor_step segs thr mst i st) \<noteq> current_speaker st \<longleftrightarrow>
            seg_start (segs ! i) - seg_end (segs ! (i - 1)) > thr \<and>
            seg_start (segs ! i) - last_speaker_change_time st > mst) \<and>
         last_speaker_change_time (attributor_step segs thr mst i st) =
           (if seg_start (segs ! i) - seg_end (segs ! (i - 1)) > thr \<and>
               seg_start (segs ! i) - last_speaker_change_time st > mst
            then seg_start (segs ! i) else last_speaker_change_time st)"
  using assms roles_distinct by (auto simp: attributor_step_def Let_def)

lemma labels_flip_iff:
  assumes "1 \<le> i" and "i < length segs"
  shows "detect_speaker_changes segs thr mst ! i \<noteq> detect_speaker_changes segs thr mst ! (i - 1) \<longleftrightarrow>
           seg_start (segs ! i) - seg_end (segs ! (i - 1)) > thr \<and>
           seg_start (segs ! i) - last_speaker_change_time (attributor_run segs thr mst i) > mst"
proof -
  from assms obtain k where k: "i = Suc k" by (cases i) auto
  have "detect_speaker_changes segs thr mst ! i =
        current_speaker (attributor_step segs thr mst i (attributor_run segs thr mst i))"
    using assms by (simp add: detect_speaker_changes_nth attributor_run_Suc)
  moreover have "detect_speaker_changes segs thr mst ! (i - 1) =
        current_speaker (attributor_run segs thr mst i)"
    using assms k by (simp add: detect_speaker_changes_nth)
  ultimately show ?thesis
    using attributor_step_flip [where st = "attributor_run segs thr mst i" and segs = segs
        and thr = thr and mst = mst and i = i, OF assms(1) current_speaker_run_role]
    by simp
qed

lemma last_change_time_run:
  "n \<le> length segs \<Longrightarrow>
     last_speaker_change_time (attributor_run segs thr mst n) =
     last_change_before (detect_speaker_changes segs thr mst) segs n"
proof (induction n)
  case 0
  show ?case by (simp add: attributor_run_0 attributor_init_def)
next
  case (Suc n)
  then have n: "n < length segs" and IH: "last_speaker_change_time (attributor_run segs thr mst n) =
     last_change_before (detect_speaker_changes segs thr mst) segs n" by simp_all
  show ?case
  proof (cases "n = 0")
    case True
    then show ?thesis
      by (simp add: attributor_run_Suc attributor_run_0 attributor_step_def attributor_init_def)
  next
    case False
    then have n1: "1 \<le> n" by simp
    note flip = labels_flip_iff [OF n1 n, of thr mst]
    note step = attributor_step_flip [where st = "attributor_run segs thr mst n" and segs = segs
        and thr = thr and mst = mst and i = n, OF n1 current_speaker_run_role]
    show ?thesis
      using flip step n1 IH by (simp add: attributor_run_Suc)
  qed
qed

lemma last_change_before_latest:
  assumes "1 \<le> i" and "labels ! i \<noteq> labels ! (i - 1)"
  shows "i < j \<Longrightarrow> (\<forall>k. i < k \<and> k < j \<longrightarrow> labels ! k = labels ! (k - 1)) \<Longrightarrow>
         last_change_before labels segs j = seg_start (segs ! i)"
proof (induction j)
  case 0
  then show ?case by simp
next
  case (Suc j)
  show ?case
  proof (cases "j = i")
    case True
    with assms show ?thesis by simp
  next
    case False
    with Suc.prems have ij: "i < j" by simp
    with Suc.prems have "labels ! j = labels ! (j - 1)" by simp
    moreover have "last_change_before labels segs j = seg_start (segs ! i)"
      using Suc.IH ij Suc.prems by simp
    ultimately show ?thesis by simp
  qed
qed

text \<open>
  C5. At every segment \<open>i \<ge> 1\<close> the speaker flips (the label of segment \<open>i\<close> differs from
  the label of segment \<open>i - 1\<close>) exactly when \<open>gap = start[i] - end[i-1]\<close> is strictly
  greater than \<open>silence_threshold\<close> and \<open>start[i] - last_change_time\<close> is strictly greater
  than \<open>min_speaker_time\<close>, where the loop's \<open>last_change_time\<close> is the start of the latest
  earlier flip (0 before the first flip). With \<open>silence_threshold \<ge> 0\<close> a negative gap
  never flips. For the segments \<open>{0.0, 2.0}, {5.0, 7.0}\<close> with threshold 1.2 and
  minimum speaker time 1.0 the second label is \<^verbatim>\<open>PARTICIPANT\<close>.
\<close>

theorem speaker_flip_condition:
  assumes "1 \<le> i" and "i < length segs"
  shows "(detect_speaker_changes segs thr mst ! i \<noteq> detect_speaker_changes segs thr mst ! (i - 1) \<longleftrightarrow>
            seg_start (segs ! i) - seg_end (segs ! (i - 1)) > thr \<and>
            seg_start (segs ! i) -
              last_change_before (detect_speaker_changes segs thr mst) segs i > mst) \<and>
         last_speaker_change_time (attributor_run segs thr mst i) =
           last_change_before (detect_speaker_changes segs thr mst) segs i \<and>
         (0 \<le> thr \<and> seg_start (segs ! i) - seg_end (segs ! (i - 1)) < 0 \<longrightarrow>
            detect_speaker_changes segs thr mst ! i = detect_speaker_changes segs thr mst ! (i - 1)) \<and>
         detect_speaker_changes scenario_B 1.2 1.0 ! 1 = lit ''PARTICIPANT''"
proof -
  have lc: "last_speaker_change_time (attributor_run segs thr mst i) =
        last_change_before (detect_speaker_changes segs thr mst) segs i"
    using assms by (simp add: last_change_time_run)
  note flip = labels_flip_iff [OF assms, of thr mst]
  have neg: "0 \<le> thr \<and> seg_start (segs ! i) - seg_end (segs ! (i - 1)) < 0 \<longrightarrow>
            detect_speaker_changes segs thr mst ! i = detect_speaker_changes segs thr mst ! (i - 1)"
    using flip by auto
  have b: "detect_speaker_changes scenario_B 1.2 1.0 ! 1 = lit ''PARTICIPANT''"
    unfolding detect_speaker_changes_scenario_B by simp
  from flip lc neg b show ?thesis by simp
qed

theorem speaker_flip_condition_witness:
  "(1::nat) \<le> 1 \<and> 1 < length scenario_B \<and>
   seg_start (scenario_B ! 1) - seg_end (scenario_B ! (1 - 1)) > 1.2 \<and>
   seg_start (scenario_B ! 1) -
     last_change_before (detect_speaker_changes scenario_B 1.2 1.0) scenario_B 1 > 1.0 \<and>
   detect_speaker_changes scenario_B 1.2 1.0 ! 1 \<noteq>
     detect_speaker_changes scenario_B 1.2 1.0 ! (1 - 1) \<and>
   (1::nat) \<le> 2 \<and> 2 < length (res_segments scenario_D) \<and> (0::real) \<le> 1.2 \<and>
   seg_start ((res_segments scenario_D) ! 2) - seg_end ((res_segments scenario_D) ! (2 - 1)) < 0 \<and>
   detect_speaker_changes (res_segments scenario_D) 1.2 1.0 ! 2 =
     detect_speaker_changes (res_segments scenario_D) 1.2 1.0 ! (2 - 1)"
proof -
  have b: "(1::nat) \<le> 1" "1 < length scenario_B"
    by (simp_all add: scenario_B_def)
  have g: "seg_start (scenario_B ! 1) - seg_end (scenario_B ! (1 - 1)) > 1.2"
    "seg_start (scenario_B ! 1) -
       last_change_before (detect_speaker_changes scenario_B 1.2 1.0) scenario_B 1 > 1.0"
    by (simp_all add: scenario_B_def)
  have o: "(1::nat) \<le> 2" "2 < length (res_segments scenario_D)"
    by (simp_all add: scenario_D_def)
  have n: "(0::real) \<le> 1.2" "seg_start ((res_segments scenario_D) ! 2) - seg_end ((res_segments scenario_D) ! (2 - 1)) < 0"
    by (simp_all add: scenario_D_def)
  from speaker_flip_condition [OF b, of "1.2" "1.0"]
    speaker_flip_condition [OF o, of "1.2" "1.0"] b g o n
  show ?thesis by blast
qed

text \<open>
  C7. Two consecutive flips are separated by strictly more than \<open>min_speaker_time\<close>: if
  the label changes at segment \<open>i\<close> and next at segment \<open>j\<close>, the start of segment \<open>j\<close>
  minus the start of segment \<open>i\<close> exceeds \<open>min_speaker_time\<close>.
\<close>

theorem no_flip_too_soon:
  assumes "1 \<le> i" and "i < j" and "j < length segs"
    and "detect_speaker_changes segs thr mst ! i \<noteq> detect_speaker_changes segs thr mst ! (i - 1)"
    and "detect_speaker_changes segs thr mst ! j \<noteq> detect_speaker_changes segs thr mst ! (j - 1)"
    and "\<forall>k. i < k \<and> k < j \<longrightarrow>
           detect_speaker_changes segs thr mst ! k = detect_speaker_changes segs thr mst ! (k - 1)"
  shows "seg_start (segs ! j) - seg_start (segs ! i) > mst"
proof -
  have j1: "1 \<le> j" using assms by simp
  have "last_change_before (detect_speaker_changes segs thr mst) segs j = seg_start (segs ! i)"
    using last_change_before_latest [OF assms(1) assms(4) assms(2) assms(6)] .
  moreover have "last_speaker_change_time (attributor_run segs thr mst j) =
        last_change_before (detect_speaker_changes segs thr mst) segs j"
    using assms by (simp add: last_change_time_run)
  ultimately show ?thesis
    using labels_flip_iff [OF j1 assms(3), of thr mst] assms(5) by simp
qed

lemma detect_three_turns:
  "detect_speaker_changes three_turns 1.2 1.0 =
     [lit ''INTERVIEWER'', lit ''PARTICIPANT'', lit ''PARTICIPANT'', lit ''INTERVIEWER'']"
  by (simp add: detect_speaker_changes_def attributor_run_def attributor_step_def
      attributor_init_def three_turns_def INTERVIEWER_def PARTICIPANT_def Let_def)

theorem no_flip_too_soon_witness:
  "(1::nat) \<le> 1 \<and> (1::nat) < 3 \<and> 3 < length three_turns \<and>
   detect_speaker_changes three_turns 1.2 1.0 ! 1 \<noteq>
     detect_speaker_changes three_turns 1.2 1.0 ! (1 - 1) \<and>
   detect_speaker_changes three_turns 1.2 1.0 ! 3 \<noteq>
     detect_speaker_changes three_turns 1.2 1.0 ! (3 - 1) \<and>
   detect_speaker_changes three_turns 1.2 1.0 ! 2 = detect_speaker_changes three_turns 1.2 1.0 ! 1 \<and>
   seg_start (three_turns ! 3) - seg_start (three_turns ! 1) > 1.0"
proof -
  have i: "(1::nat) \<le> 1" "(1::nat) < 3" "3 < length three_turns"
    by (simp_all add: three_turns_def)
  have f1: "detect_speaker_changes three_turns 1.2 1.0 ! 1 \<noteq>
            detect_speaker_changes three_turns 1.2 1.0 ! (1 - 1)"
    unfolding detect_three_turns by (simp add: lit_def)
  have f3: "detect_speaker_changes three_turns 1.2 1.0 ! 3 \<noteq>
            detect_speaker_changes three_turns 1.2 1.0 ! (3 - 1)"
    unfolding detect_three_turns by (simp add: lit_def)
  have e2: "detect_speaker_changes three_turns 1.2 1.0 ! 2 =
            detect_speaker_changes three_turns 1.2 1.0 ! 1"
    unfolding detect_three_turns by simp
  have mid: "\<forall>k. 1 < k \<and> k < 3 \<longrightarrow>
           detect_speaker_changes three_turns 1.2 1.0 ! k =
           detect_speaker_changes three_turns 1.2 1.0 ! (k - 1)"
  proof (intro allI impI)
    fix k :: nat
    assume "1 < k \<and> k < 3"
    then have "k = 2" by simp
    with e2 show "detect_speaker_changes three_turns 1.2 1.0 ! k =
           detect_speaker_changes three_turns 1.2 1.0 ! (k - 1)" by simp
  qed
  from no_flip_too_soon [OF i f1 f3 mid] i f1 f3 e2
  show ?thesis by blast
qed

section \<open>Properties of the content markers\<close>

lemma add_content_markers_short:
  "length (strip text) < 3 \<Longrightarrow> add_content_markers text = lit ''[UNCLEAR]''"
  by (simp add: add_content_markers_def)

text \<open>
  C2, as stated, fails. The input of two spaces and three dots strips to the three dots,
  whose length is 3 and not below 3, so the marker \<^verbatim>\<open>[UNCLEAR]\<close> is not returned.
\<close>

theorem add_content_markers_dots_not_unclear:
  "add_content_markers (lit ''  ...'') \<noteq> lit ''[UNCLEAR]''"
  by (simp add: add_content_markers_def strip_def isspace_def lit_def Let_def)

text \<open>
  C2, amended. Applied to the string of two spaces and three dots, \<^verbatim>\<open>add_content_markers\<close>
  returns \<^verbatim>\<open>[PAUSE]\<close>. The length check comes first and is made on the stripped text:
  every text whose stripped length is below 3 yields \<^verbatim>\<open>[UNCLEAR]\<close>, whatever it
  contains.
\<close>

theorem add_content_markers_length_check:
  "add_content_markers (lit ''  ...'') = lit ''[PAUSE]'' \<and>
   (length (strip text) < 3 \<longrightarrow> add_content_markers text = lit ''[UNCLEAR]'')"
proof
  show "add_content_markers (lit ''  ...'') = lit ''[PAUSE]''"
    by (simp add: add_content_markers_def strip_def isspace_def lit_def Let_def)
next
  show "length (strip text) < 3 \<longrightarrow> add_content_markers text = lit ''[UNCLEAR]''"
    by (simp add: add_content_markers_short)
qed

theorem add_content_markers_length_check_witness:
  "length (strip (lit ''  ..'')) < 3 \<and> add_content_markers (lit ''  ..'') = lit ''[UNCLEAR]''"
proof -
  have h: "length (strip (lit ''  ..'')) < 3"
    by (simp add: strip_def isspace_def lit_def)
  from add_content_markers_length_check [of "lit ''  ..''"] h
  show ?thesis by blast
qed


subsection \<open>General facts about replacement\<close>

lemma str_replace_no_occurrence:
  "old \<noteq> [] \<Longrightarrow> \<not> sublist old s \<Longrightarrow> str_replace old new s = s"
  by (induction s) (auto simp: sublist_Cons_right)

lemma length_str_replace_le:
  "old \<noteq> [] \<Longrightarrow> length new \<le> length old \<Longrightarrow> length (str_replace old new s) \<le> length s"
proof (induction old new s rule: str_replace.induct)
  case (1 old new)
  then show ?case by simp
next
  case (2 old new c cs)
  show ?case
  proof (cases "prefix old (c # cs)")
    case True
    then have "length old \<le> Suc (length cs)"
      using prefix_length_le by fastforce
    moreover have "length (str_replace old new (drop (length old - 1) cs)) \<le>
                   length (drop (length old - 1) cs)"
      using 2 True by simp
    ultimately show ?thesis
      using 2(4,5) True by simp
  next
    case False
    with 2 show ?thesis by simp
  qed
qed

lemma length_str_replace_less:
  "old \<noteq> [] \<Longrightarrow> length new < length old \<Longrightarrow> sublist old s \<Longrightarrow>
     length (str_replace old new s) < length s"
proof (induction s)
  case Nil
  then show ?case by simp
next
  case (Cons c cs)
  show ?case
  proof (cases "prefix old (c # cs)")
    case True
    then have len: "length old \<le> Suc (length cs)"
      using prefix_length_le by fastforce
    have "length new \<le> length old" using Cons.prems by simp
    with Cons.prems(1)
    have "length (str_replace old new (drop (length old - 1) cs)) \<le>
          length (drop (length old - 1) cs)"
      by (rule length_str_replace_le)
    then have le: "length (str_replace old new (drop (length old - 1) cs)) \<le>
          length cs - (length old - 1)"
      by simp
    have eq: "length (str_replace old new (c # cs)) =
          length new + length (str_replace old new (drop (length old - 1) cs))"
      using Cons.prems True by simp
    from len le Cons.prems(2) show ?thesis
      unfolding eq by simp
  next
    case False
    with Cons.prems have "sublist old cs" by (simp add: sublist_Cons_right)
    with Cons False show ?thesis by simp
  qed
qed

lemma length_str_replace_ge:
  "old \<noteq> [] \<Longrightarrow> length old \<le> length new \<Longrightarrow> length s \<le> length (str_replace old new s)"
proof (induction old new s rule: str_replace.induct)
  case (1 old new)
  then show ?case by simp
next
  case (2 old new c cs)
  show ?case
  proof (cases "prefix old (c # cs)")
    case True
    have "length (drop (length old - 1) cs) \<le>
          length (str_replace old new (drop (length old - 1) cs))"
      using 2 True by simp
    then have ge: "length cs - (length old - 1) \<le>
          length (str_replace old new (drop (length old - 1) cs))"
      by simp
    have eq: "length (str_replace old new (c # cs)) =
          length new + length (str_replace old new (drop (length old - 1) cs))"
      using 2(4) True by simp
    have "0 < length old" using 2(4) by simp
    with ge 2(5) show ?thesis
      unfolding eq by simp
  next
    case False
    with 2 show ?thesis by simp
  qed
qed

lemma set_str_replace:
  "old \<noteq> [] \<Longrightarrow> set (str_replace old new s) \<subseteq> set s \<union> set new"
proof (induction old new s rule: str_replace.induct)
  case (1 old new)
  then show ?case by simp
next
  case (2 old new c cs)
  show ?case
  proof (cases "prefix old (c # cs)")
    case True
    have "set (drop (length old - 1) cs) \<subseteq> set cs"
      by (rule set_drop_subset)
    with 2 True show ?thesis by auto
  next
    case False
    with 2 show ?thesis by auto
  qed
qed

lemma str_replace_nonempty:
  "old \<noteq> [] \<Longrightarrow> new \<noteq> [] \<Longrightarrow> s \<noteq> [] \<Longrightarrow> str_replace old new s \<noteq> []"
  by (cases s) auto

lemma hd_str_replace:
  "old \<noteq> [] \<Longrightarrow> new \<noteq> [] \<Longrightarrow> s \<noteq> [] \<Longrightarrow>
     hd (str_replace old new s) = hd s \<or> hd (str_replace old new s) = hd new"
  by (cases s) auto

lemma last_str_replace:
  "old \<noteq> [] \<Longrightarrow> new \<noteq> [] \<Longrightarrow> s \<noteq> [] \<Longrightarrow>
     last (str_replace old new s) = last s \<or> last (str_replace old new s) = last new"
proof (induction old new s rule: str_replace.induct)
  case (1 old new)
  then show ?case by simp
next
  case (2 old new c cs)
  show ?case
  proof (cases "prefix old (c # cs)")
    case True
    show ?thesis
    proof (cases "drop (length old - 1) cs = []")
      case True
      with 2 \<open>prefix old (c # cs)\<close> show ?thesis by simp
    next
      case False
      then have lt: "length old - 1 < length cs" by simp
      have ne: "str_replace old new (drop (length old - 1) cs) \<noteq> []"
        using 2(4,5) False by (rule str_replace_nonempty)
      have "last (drop (length old - 1) cs) = last cs" using lt by simp
      moreover have "cs \<noteq> []" using lt by auto
      ultimately show ?thesis
        using 2(2) [OF 2(4) True 2(4) 2(5) False] 2(4) True ne by auto
    qed
  next
    case False
    show ?thesis
    proof (cases "cs = []")
      case True
      with 2 False show ?thesis by simp
    next
      case cs: False
      have ne: "str_replace old new cs \<noteq> []"
        using 2(4,5) cs by (rule str_replace_nonempty)
      show ?thesis
        using 2(3) [OF 2(4) False 2(4) 2(5) cs] 2(4) False ne cs by auto
    qed
  qed
qed

text \<open>No occurrence straddles a boundary next to a character that is not in \<open>old\<close>.\<close>

lemma str_replace_append_last:
  "old \<noteq> [] \<Longrightarrow> s = [] \<or> last s \<notin> set old \<Longrightarrow>
     str_replace old new (s @ t) = str_replace old new s @ str_replace old new t"
proof (induction old new s rule: str_replace.induct)
  case (1 old new)
  then show ?case by simp
next
  case (2 old new c cs)
  from 2(5) have last: "last (c # cs) \<notin> set old" by simp
  show ?case
  proof (cases "prefix old (c # cs)")
    case True
    then have pre: "prefix old (c # cs @ t)"
      by (metis append_Cons prefix_prefix)
    have len: "length old \<le> Suc (length cs)"
      using True prefix_length_le by fastforce
    let ?rest = "drop (length old - 1) cs"
    have rest: "?rest = [] \<or> last ?rest \<notin> set old"
    proof (cases "?rest = []")
      case True
      then show ?thesis by simp
    next
      case False
      then have "length old - 1 < length cs" by simp
      then have "last ?rest = last cs" "cs \<noteq> []" by auto
      with last show ?thesis by simp
    qed
    have "str_replace old new (?rest @ t) = str_replace old new ?rest @ str_replace old new t"
      using 2(2) [OF 2(4) True 2(4) rest] .
    moreover have "drop (length old - 1) (cs @ t) = ?rest @ t"
      using len by simp
    ultimately show ?thesis
      using 2(4) True pre by simp
  next
    case False
    have npre: "\<not> prefix old (c # cs @ t)"
    proof
      assume "prefix old (c # cs @ t)"
      then have "prefix old ((c # cs) @ t)" by simp
      then have "prefix old (c # cs) \<or> (\<exists>us. old = (c # cs) @ us \<and> prefix us t)"
        unfolding prefix_append .
      with False obtain us where "old = (c # cs) @ us" by blast
      then have "last (c # cs) \<in> set old" by simp
      with last show False by simp
    qed
    have cs: "cs = [] \<or> last cs \<notin> set old"
      using last by (cases "cs = []") simp_all
    have "str_replace old new (cs @ t) = str_replace old new cs @ str_replace old new t"
      using 2(3) [OF 2(4) False 2(4) cs] .
    then show ?thesis
      using 2(4) False npre by simp
  qed
qed

lemma str_replace_append_hd:
  "old \<noteq> [] \<Longrightarrow> t = [] \<or> hd t \<notin> set old \<Longrightarrow>
     str_replace old new (s @ t) = str_replace old new s @ str_replace old new t"
proof (induction old new s rule: str_replace.induct)
  case (1 old new)
  then show ?case by simp
next
  case (2 old new c cs)
  have straddle: "prefix old (c # cs @ t) \<Longrightarrow> prefix old (c # cs)"
  proof -
    assume "prefix old (c # cs @ t)"
    then have "prefix old ((c # cs) @ t)" by simp
    then have "prefix old (c # cs) \<or> (\<exists>us. old = (c # cs) @ us \<and> prefix us t)"
      unfolding prefix_append .
    then show "prefix old (c # cs)"
    proof
      assume "prefix old (c # cs)"
      then show ?thesis .
    next
      assume "\<exists>us. old = (c # cs) @ us \<and> prefix us t"
      then obtain us where us: "old = (c # cs) @ us" "prefix us t" by blast
      show ?thesis
      proof (cases "us = []")
        case True
        with us show ?thesis by simp
      next
        case False
        with us(2) have "t \<noteq> []" "hd t = hd us"
          by (auto simp: prefix_def)
        moreover have "hd us \<in> set old" using us(1) False by simp
        ultimately show ?thesis using 2(5) by simp
      qed
    qed
  qed
  show ?case
  proof (cases "prefix old (c # cs)")
    case True
    then have pre: "prefix old (c # cs @ t)"
      by (metis append_Cons prefix_prefix)
    have len: "length old \<le> Suc (length cs)"
      using True prefix_length_le by fastforce
    let ?rest = "drop (length old - 1) cs"
    have "str_replace old new (?rest @ t) = str_replace old new ?rest @ str_replace old new t"
      using 2(2) [OF 2(4) True 2(4) 2(5)] .
    moreover have "drop (length old - 1) (cs @ t) = ?rest @ t"
      using len by simp
    ultimately show ?thesis
      using 2(4) True pre by simp
  next
    case False
    with straddle have npre: "\<not> prefix old (c # cs @ t)" by blast
    have "str_replace old new (cs @ t) = str_replace old new cs @ str_replace old new t"
      using 2(3) [OF 2(4) False 2(4) 2(5)] .
    then show ?thesis
      using 2(4) False npre by simp
  qed
qed

subsection \<open>Facts about strip\<close>

lemma strip_spaces_around:
  assumes "\<forall>c \<in> set w1. isspace c" and "\<forall>c \<in> set w2. isspace c"
    and "core = [] \<or> (\<not> isspace (hd core) \<and> \<not> isspace (last core))"
  shows "strip (w1 @ core @ w2) = core"
proof (cases "core = []")
  case True
  have e: "dropWhile isspace (w1 @ w2) = []"
    using assms(1,2) by auto
  have "strip (w1 @ w2) = rev (dropWhile isspace (rev (dropWhile isspace (w1 @ w2))))"
    by (simp only: strip_def)
  also have "\<dots> = []"
    unfolding e by simp
  finally show ?thesis using True by simp
next
  case False
  with assms(3) have h: "\<not> isspace (hd core)" and l: "\<not> isspace (last core)" by simp_all
  have "dropWhile isspace (w1 @ core @ w2) = dropWhile isspace (core @ w2)"
    using assms(1) by simp
  also have "\<dots> = core @ w2"
    using False h by (cases core) simp_all
  finally have d: "dropWhile isspace (w1 @ core @ w2) = core @ w2" .
  have "dropWhile isspace (rev w2 @ rev core) = dropWhile isspace (rev core)"
    using assms(2) by (intro dropWhile_append2) simp
  then have "dropWhile isspace (rev (core @ w2)) = dropWhile isspace (rev core)"
    by simp
  also have "\<dots> = rev core"
    using False l by (cases core rule: rev_cases) simp_all
  finally show ?thesis by (simp add: strip_def d)
qed

lemma strip_decompose:
  obtains w1 core w2 where "x = w1 @ core @ w2"
    and "\<forall>c \<in> set w1. isspace c" and "\<forall>c \<in> set w2. isspace c"
    and "core = [] \<or> (\<not> isspace (hd core) \<and> \<not> isspace (last core))"
    and "strip x = core"
proof -
  let ?d = "dropWhile isspace x"
  let ?w1 = "takeWhile isspace x"
  let ?core = "rev (dropWhile isspace (rev ?d))"
  let ?w2 = "rev (takeWhile isspace (rev ?d))"
  have x: "x = ?w1 @ ?core @ ?w2"
  proof -
    have "rev ?d = takeWhile isspace (rev ?d) @ dropWhile isspace (rev ?d)" by simp
    then have "rev (rev ?d) = rev (takeWhile isspace (rev ?d) @ dropWhile isspace (rev ?d))"
      by (rule arg_cong)
    then have "?d = ?core @ ?w2" by (simp only: rev_rev_ident rev_append)
    moreover have "x = ?w1 @ ?d" by simp
    ultimately show ?thesis by simp
  qed
  have w1: "\<forall>c \<in> set ?w1. isspace c" by (auto dest: set_takeWhileD)
  have w2: "\<forall>c \<in> set ?w2. isspace c" by (auto dest: set_takeWhileD)
  have core: "?core = [] \<or> (\<not> isspace (hd ?core) \<and> \<not> isspace (last ?core))"
  proof (cases "?core = []")
    case True
    then show ?thesis by simp
  next
    case False
    then have ne: "dropWhile isspace (rev ?d) \<noteq> []" by simp
    then have l: "\<not> isspace (last ?core)"
      using hd_dropWhile [OF ne] by (simp add: last_rev)
    have "?d = ?core @ ?w2"
    proof -
      have "rev ?d = takeWhile isspace (rev ?d) @ dropWhile isspace (rev ?d)" by simp
      then have "rev (rev ?d) = rev (takeWhile isspace (rev ?d) @ dropWhile isspace (rev ?d))"
        by (rule arg_cong)
      then show ?thesis by (simp only: rev_rev_ident rev_append)
    qed
    with False have "hd ?core = hd ?d" and "?d \<noteq> []"
      by (metis hd_append2, metis append_is_Nil_conv)
    then have "\<not> isspace (hd ?core)"
      using hd_dropWhile [of isspace x] by simp
    with l show ?thesis by simp
  qed
  have "strip x = ?core" by (simp add: strip_def)
  with x w1 w2 core show ?thesis by (rule that)
qed

lemma strip_strip: "strip (strip x) = strip x"
proof -
  obtain w1 core w2 :: pystr
    where "core = [] \<or> (\<not> isspace (hd core) \<and> \<not> isspace (last core))"
    and s: "strip x = core"
    by (rule strip_decompose)
  then have "strip ([] @ core @ []) = core"
    by (intro strip_spaces_around) simp_all
  with s show ?thesis by simp
qed

lemma sublist_strip: "sublist (strip x) x"
proof -
  obtain w1 core w2 where "x = w1 @ core @ w2" and "strip x = core"
    by (rule strip_decompose)
  then show ?thesis by auto
qed

lemma length_strip_le: "length (strip x) \<le> length x"
  using sublist_strip by (rule sublist_length_le)

subsection \<open>Leading characters and runs after a replacement\<close>

lemma str_replace_match:
  "old \<noteq> [] \<Longrightarrow> prefix old (c # cs) \<Longrightarrow>
     str_replace old new (c # cs) = new @ str_replace old new (drop (length old - 1) cs)"
  by simp

lemma str_replace_copy:
  "old \<noteq> [] \<Longrightarrow> \<not> prefix old (c # cs) \<Longrightarrow>
     str_replace old new (c # cs) = c # str_replace old new cs"
  by simp

lemma str_replace_leading1:
  assumes "old \<noteq> []" and "new \<noteq> []" and "hd new \<noteq> d"
    and p: "prefix [d] (str_replace old new s)"
  shows "prefix [d] s"
proof (cases s)
  case Nil
  with p assms(1) show ?thesis by simp
next
  case (Cons c cs)
  show ?thesis
  proof (cases "prefix old (c # cs)")
    case True
    obtain n ns where new: "new = n # ns" using assms(2) by (cases new) auto
    have "str_replace old new s = n # ns @ str_replace old new (drop (length old - 1) cs)"
      unfolding Cons str_replace_match [OF assms(1) True] new by simp
    with p have "d = n" by simp
    with assms(3) new show ?thesis by simp
  next
    case False
    have "str_replace old new s = c # str_replace old new cs"
      unfolding Cons by (rule str_replace_copy [OF assms(1) False])
    with p have "d = c" by simp
    with Cons show ?thesis by simp
  qed
qed

lemma str_replace_leading2:
  assumes "old \<noteq> []" and "new \<noteq> []" and "hd new \<noteq> d"
    and p: "prefix [d, d] (str_replace old new s)"
  shows "prefix [d, d] s"
proof (cases s)
  case Nil
  with p assms(1) show ?thesis by simp
next
  case (Cons c cs)
  show ?thesis
  proof (cases "prefix old (c # cs)")
    case True
    obtain n ns where new: "new = n # ns" using assms(2) by (cases new) auto
    have "str_replace old new s = n # ns @ str_replace old new (drop (length old - 1) cs)"
      unfolding Cons str_replace_match [OF assms(1) True] new by simp
    with p have "d = n" by simp
    with assms(3) new show ?thesis by simp
  next
    case False
    have eq: "str_replace old new s = c # str_replace old new cs"
      unfolding Cons by (rule str_replace_copy [OF assms(1) False])
    from p have "prefix [d, d] (c # str_replace old new cs)"
      unfolding eq .
    then have dc: "d = c" and "prefix [d] (str_replace old new cs)" by auto
    then have "prefix [d] cs"
      using str_replace_leading1 [OF assms(1-3)] by blast
    with dc Cons show ?thesis by simp
  qed
qed

lemma sublist_triple_append:
  "d \<notin> set p \<Longrightarrow> sublist [d, d, d] (p @ q) \<Longrightarrow> sublist [d, d, d] q"
  by (induction p) (auto simp: sublist_Cons_right)

lemma sublist_pair_append:
  "d \<notin> set p \<Longrightarrow> sublist [d, d] (p @ q) \<Longrightarrow> sublist [d, d] q"
  by (induction p) (auto simp: sublist_Cons_right)

lemma sublist_drop_Cons: "sublist u (drop n cs) \<Longrightarrow> sublist u (c # cs)"
proof -
  assume "sublist u (drop n cs)"
  moreover have "sublist (drop n cs) (c # cs)"
    by (simp add: sublist_Cons_right)
  ultimately show ?thesis by (rule sublist_order.order.trans)
qed

lemma str_replace_no_triple:
  assumes "old \<noteq> []" and "new \<noteq> []" and "d \<notin> set new"
  shows "old = [d, d, d] \<or> \<not> sublist [d, d, d] s \<Longrightarrow>
         \<not> sublist [d, d, d] (str_replace old new s)"
proof (induction s rule: length_induct)
  case (1 s)
  note IH = 1(1) [rule_format]
  have hdnew: "hd new \<noteq> d" using assms(2,3) by (cases new) auto
  show ?case
  proof (cases s)
    case Nil
    show ?thesis unfolding Nil using assms(1) by simp
  next
    case (Cons c cs)
    show ?thesis
    proof (cases "prefix old (c # cs)")
      case True
      let ?rest = "drop (length old - 1) cs"
      have len: "length ?rest < length s" using Cons by simp
      have hyp: "old = [d, d, d] \<or> \<not> sublist [d, d, d] ?rest"
      proof (cases "old = [d, d, d]")
        case True
        then show ?thesis by simp
      next
        case False
        with 1(2) have "\<not> sublist [d, d, d] (c # cs)" unfolding Cons by simp
        moreover have "sublist [d, d, d] ?rest \<Longrightarrow> sublist [d, d, d] (c # cs)"
          by (rule sublist_drop_Cons)
        ultimately show ?thesis by blast
      qed
      have "\<not> sublist [d, d, d] (str_replace old new ?rest)"
        by (rule IH [OF len hyp])
      moreover have "sublist [d, d, d] (new @ str_replace old new ?rest) \<Longrightarrow>
          sublist [d, d, d] (str_replace old new ?rest)"
        by (rule sublist_triple_append [OF assms(3)])
      ultimately have "\<not> sublist [d, d, d] (new @ str_replace old new ?rest)"
        by blast
      then show ?thesis
        unfolding Cons str_replace_match [OF assms(1) True] .
    next
      case False
      have len: "length cs < length s" using Cons by simp
      have hyp: "old = [d, d, d] \<or> \<not> sublist [d, d, d] cs"
      proof (cases "old = [d, d, d]")
        case True
        then show ?thesis by simp
      next
        case False
        with 1(2) have "\<not> sublist [d, d, d] (c # cs)" unfolding Cons by simp
        then show ?thesis by (simp add: sublist_Cons_right)
      qed
      have IH': "\<not> sublist [d, d, d] (str_replace old new cs)"
        by (rule IH [OF len hyp])
      have "\<not> prefix [d, d, d] (c # str_replace old new cs)"
      proof
        assume "prefix [d, d, d] (c # str_replace old new cs)"
        then have cd: "c = d" and "prefix [d, d] (str_replace old new cs)" by auto
        then have "prefix [d, d] cs"
          using str_replace_leading2 [OF assms(1,2) hdnew] by blast
        with cd have pre: "prefix [d, d, d] (c # cs)" by simp
        show False
        proof (cases "old = [d, d, d]")
          case True
          with pre False show False by auto
        next
          case neq: False
          with 1(2) have "\<not> sublist [d, d, d] (c # cs)" unfolding Cons by simp
          moreover from pre have "sublist [d, d, d] (c # cs)" by (rule prefix_imp_sublist)
          ultimately show False by blast
        qed
      qed
      with IH' have "\<not> sublist [d, d, d] (c # str_replace old new cs)"
        by (simp add: sublist_Cons_right)
      then show ?thesis
        unfolding Cons str_replace_copy [OF assms(1) False] .
    qed
  qed
qed

subsection \<open>The two replacements of the normaliser\<close>

lemma lit_dots: "lit ''...'' = [46, 46, 46]"
  and lit_pause: "lit ''[PAUSE]'' = [91, 80, 65, 85, 83, 69, 93]"
  and lit_two_spaces: "lit ''  '' = [32, 32]"
  and lit_space: "lit '' '' = [32]"
  and lit_unclear: "lit ''[UNCLEAR]'' = [91, 85, 78, 67, 76, 69, 65, 82, 93]"
  by (simp_all add: lit_def)

lemma isspace_32: "isspace 32"
  and not_isspace_46: "\<not> isspace 46"
  and not_isspace_91: "\<not> isspace 91"
  and not_isspace_93: "\<not> isspace 93"
  by (simp_all add: isspace_def)

lemma pause_spaces:
  assumes "\<forall>c \<in> set w. isspace c"
  shows "str_replace (lit ''...'') (lit ''[PAUSE]'') w = w"
proof (rule str_replace_no_occurrence)
  show "lit ''...'' \<noteq> []" by (simp add: lit_dots)
  show "\<not> sublist (lit ''...'') w"
  proof
    assume "sublist (lit ''...'') w"
    then have "set (lit ''...'') \<subseteq> set w" by (rule set_mono_sublist)
    then have "46 \<in> set w" by (simp add: lit_dots)
    with assms have "isspace 46" by blast
    with not_isspace_46 show False by simp
  qed
qed

lemma pause_around:
  assumes w1: "\<forall>c \<in> set w1. isspace c" and w2: "\<forall>c \<in> set w2. isspace c"
  shows "str_replace (lit ''...'') (lit ''[PAUSE]'') (w1 @ core @ w2) =
         w1 @ str_replace (lit ''...'') (lit ''[PAUSE]'') core @ w2"
proof -
  let ?R = "str_replace (lit ''...'') (lit ''[PAUSE]'')"
  have ne: "lit ''...'' \<noteq> []" by (simp add: lit_dots)
  have l1: "w1 = [] \<or> last w1 \<notin> set (lit ''...'')"
  proof (cases "w1 = []")
    case True
    then show ?thesis by simp
  next
    case False
    then have "last w1 \<in> set w1" by simp
    with w1 have "isspace (last w1)" by blast
    with not_isspace_46 have "last w1 \<noteq> 46" by auto
    then show ?thesis by (simp add: lit_dots)
  qed
  have h2: "w2 = [] \<or> hd w2 \<notin> set (lit ''...'')"
  proof (cases "w2 = []")
    case True
    then show ?thesis by simp
  next
    case False
    then have "hd w2 \<in> set w2" by simp
    with w2 have "isspace (hd w2)" by blast
    with not_isspace_46 have "hd w2 \<noteq> 46" by auto
    then show ?thesis by (simp add: lit_dots)
  qed
  have "?R (w1 @ (core @ w2)) = ?R w1 @ ?R (core @ w2)"
    by (rule str_replace_append_last [OF ne l1])
  also have "?R (core @ w2) = ?R core @ ?R w2"
    by (rule str_replace_append_hd [OF ne h2])
  finally show ?thesis
    by (simp only: pause_spaces [OF w1] pause_spaces [OF w2])
qed

lemma pause_core:
  assumes "3 \<le> length core" and "\<not> isspace (hd core)" and "\<not> isspace (last core)"
  shows "3 \<le> length (str_replace (lit ''...'') (lit ''[PAUSE]'') core) \<and>
         \<not> isspace (hd (str_replace (lit ''...'') (lit ''[PAUSE]'') core)) \<and>
         \<not> isspace (last (str_replace (lit ''...'') (lit ''[PAUSE]'') core))"
proof -
  let ?R = "str_replace (lit ''...'') (lit ''[PAUSE]'')"
  have ne: "lit ''...'' \<noteq> []" "lit ''[PAUSE]'' \<noteq> []" by (simp_all add: lit_dots lit_pause)
  have core: "core \<noteq> []" using assms(1) by auto
  have "length core \<le> length (?R core)"
    by (rule length_str_replace_ge [OF ne(1)]) (simp add: lit_dots lit_pause)
  with assms(1) have len: "3 \<le> length (?R core)" by simp
  have "hd (?R core) = hd core \<or> hd (?R core) = hd (lit ''[PAUSE]'')"
    by (rule hd_str_replace [OF ne core])
  then have h: "\<not> isspace (hd (?R core))"
    using assms(2) not_isspace_91 by (auto simp: lit_pause)
  have "last (?R core) = last core \<or> last (?R core) = last (lit ''[PAUSE]'')"
    by (rule last_str_replace [OF ne core])
  then have l: "\<not> isspace (last (?R core))"
    using assms(3) not_isspace_93 by (auto simp: lit_pause)
  from len h l show ?thesis by simp
qed

lemma collapse_spaces:
  assumes "\<forall>c \<in> set w. isspace c"
  shows "\<forall>c \<in> set (str_replace (lit ''  '') (lit '' '') w). isspace c"
proof
  fix c
  assume "c \<in> set (str_replace (lit ''  '') (lit '' '') w)"
  moreover have "set (str_replace (lit ''  '') (lit '' '') w) \<subseteq> set w \<union> set (lit '' '')"
    by (rule set_str_replace) (simp add: lit_two_spaces)
  ultimately have "c \<in> set w \<or> c = 32" by (auto simp: lit_space)
  with assms isspace_32 show "isspace c" by blast
qed

lemma collapse_single: "str_replace (lit ''  '') (lit '' '') [a] = [a]"
  by (simp add: lit_two_spaces)

lemma collapse_core:
  assumes "3 \<le> length core" and "\<not> isspace (hd core)" and "\<not> isspace (last core)"
  shows "3 \<le> length (str_replace (lit ''  '') (lit '' '') core) \<and>
         \<not> isspace (hd (str_replace (lit ''  '') (lit '' '') core)) \<and>
         \<not> isspace (last (str_replace (lit ''  '') (lit '' '') core))"
proof -
  let ?R = "str_replace (lit ''  '') (lit '' '')"
  have ne: "lit ''  '' \<noteq> []" "lit '' '' \<noteq> []" by (simp_all add: lit_two_spaces lit_space)
  from assms(1) obtain a rest where core: "core = a # rest" and rest: "2 \<le> length rest"
    by (cases core) auto
  from rest have "rest \<noteq> []" by auto
  then obtain m b where mb: "rest = m @ [b]"
    by (cases rest rule: rev_cases) auto
  with rest have m: "m \<noteq> []" by auto
  have a: "\<not> isspace a" using assms(2) core by simp
  have b: "\<not> isspace b" using assms(3) core mb by simp
  from a isspace_32 have a32: "a \<noteq> 32" by auto
  from b isspace_32 have b32: "b \<noteq> 32" by auto
  have "?R ([a] @ (m @ [b])) = ?R [a] @ ?R (m @ [b])"
    by (rule str_replace_append_last [OF ne(1)]) (simp add: lit_two_spaces a32)
  also have "?R (m @ [b]) = ?R m @ ?R [b]"
    by (rule str_replace_append_hd [OF ne(1)]) (simp add: lit_two_spaces b32)
  finally have eq: "?R core = a # ?R m @ [b]"
    by (simp only: collapse_single core mb append_Cons append_Nil)
  have "?R m \<noteq> []" by (rule str_replace_nonempty [OF ne m])
  then have "1 \<le> length (?R m)" by (simp add: Suc_le_eq)
  with a b show ?thesis unfolding eq by simp
qed

lemma collapse_around:
  assumes w1: "\<forall>c \<in> set w1. isspace c"
    and core: "core \<noteq> []" "\<not> isspace (hd core)" "\<not> isspace (last core)"
  shows "str_replace (lit ''  '') (lit '' '') (w1 @ core @ w2) =
         str_replace (lit ''  '') (lit '' '') w1 @ str_replace (lit ''  '') (lit '' '') core @
         str_replace (lit ''  '') (lit '' '') w2"
proof -
  let ?R = "str_replace (lit ''  '') (lit '' '')"
  have ne: "lit ''  '' \<noteq> []" by (simp add: lit_two_spaces)
  from core(2) isspace_32 have "hd core \<noteq> 32" by auto
  then have h: "core @ w2 = [] \<or> hd (core @ w2) \<notin> set (lit ''  '')"
    using core(1) by (simp add: lit_two_spaces)
  from core(3) isspace_32 have "last core \<noteq> 32" by auto
  then have l: "core = [] \<or> last core \<notin> set (lit ''  '')"
    by (simp add: lit_two_spaces)
  have "?R (w1 @ (core @ w2)) = ?R w1 @ ?R (core @ w2)"
    by (rule str_replace_append_hd [OF ne h])
  also have "?R (core @ w2) = ?R core @ ?R w2"
    by (rule str_replace_append_last [OF ne l])
  finally show ?thesis .
qed

text \<open>A text that is not short stays not short under the two replacements.\<close>

lemma normalised_length:
  assumes "3 \<le> length (strip x)"
  shows "3 \<le> length (strip (str_replace (lit ''  '') (lit '' '')
                 (str_replace (lit ''...'') (lit ''[PAUSE]'') x)))"
proof -
  let ?P = "str_replace (lit ''...'') (lit ''[PAUSE]'')"
  let ?C = "str_replace (lit ''  '') (lit '' '')"
  obtain w1 core w2 where x: "x = w1 @ core @ w2"
    and w1: "\<forall>c \<in> set w1. isspace c" and w2: "\<forall>c \<in> set w2. isspace c"
    and ends: "core = [] \<or> (\<not> isspace (hd core) \<and> \<not> isspace (last core))"
    and s: "strip x = core"
    by (rule strip_decompose)
  from assms s have len: "3 \<le> length core" by simp
  then have "core \<noteq> []" by auto
  with ends have hd: "\<not> isspace (hd core)" and lst: "\<not> isspace (last core)" by simp_all
  note p = pause_core [OF len hd lst]
  from p have plen: "3 \<le> length (?P core)" and phd: "\<not> isspace (hd (?P core))"
    and plast: "\<not> isspace (last (?P core))" by simp_all
  from plen have pne: "?P core \<noteq> []" by auto
  note c = collapse_core [OF plen phd plast]
  have "?C (?P x) = ?C (w1 @ ?P core @ w2)"
    unfolding x by (simp only: pause_around [OF w1 w2])
  also have "\<dots> = ?C w1 @ ?C (?P core) @ ?C w2"
    by (rule collapse_around [OF w1 pne phd plast])
  finally have "strip (?C (?P x)) = strip (?C w1 @ ?C (?P core) @ ?C w2)"
    by simp
  also have "\<dots> = ?C (?P core)"
    by (rule strip_spaces_around [OF collapse_spaces [OF w1] collapse_spaces [OF w2]])
      (simp add: c)
  finally show ?thesis using c by simp
qed

lemma normalised_no_dots:
  "\<not> sublist (lit ''...'')
       (strip (str_replace (lit ''  '') (lit '' '')
                 (str_replace (lit ''...'') (lit ''[PAUSE]'') x)))"
proof -
  let ?P = "str_replace (lit ''...'') (lit ''[PAUSE]'')"
  let ?C = "str_replace (lit ''  '') (lit '' '')"
  have p: "\<not> sublist [46, 46, 46] (?P x)"
    unfolding lit_dots by (rule str_replace_no_triple) (simp_all add: lit_pause)
  have c: "\<not> sublist [46, 46, 46] (?C (?P x))"
    by (rule str_replace_no_triple) (simp_all add: lit_two_spaces lit_space p)
  have "sublist (strip (?C (?P x))) (?C (?P x))" by (rule sublist_strip)
  then have "sublist [46, 46, 46] (strip (?C (?P x))) \<Longrightarrow> sublist [46, 46, 46] (?C (?P x))"
    by (rule sublist_order.order.trans [rotated])
  with c show ?thesis unfolding lit_dots by blast
qed

lemma add_content_markers_long:
  "\<not> length (strip text) < 3 \<Longrightarrow>
     add_content_markers text =
     strip (str_replace (lit ''  '') (lit '' '')
              (str_replace (lit ''...'') (lit ''[PAUSE]'') text))"
  by (simp add: add_content_markers_def Let_def)

lemma add_content_markers_unclear_fixed:
  "add_content_markers (lit ''[UNCLEAR]'') = lit ''[UNCLEAR]''"
  by (simp add: add_content_markers_def strip_def isspace_def lit_def Let_def)

lemma unclear_no_two_spaces: "\<not> sublist (lit ''  '') (lit ''[UNCLEAR]'')"
  by (simp add: lit_def sublist_Cons_right)

lemma markers_fixed_iff_no_pair:
  "add_content_markers (add_content_markers x) = add_content_markers x \<longleftrightarrow>
   \<not> sublist (lit ''  '') (add_content_markers x)"
proof (cases "length (strip x) < 3")
  case True
  then have "add_content_markers x = lit ''[UNCLEAR]''"
    by (rule add_content_markers_short)
  then show ?thesis
    by (simp only: add_content_markers_unclear_fixed unclear_no_two_spaces) simp
next
  case False
  let ?P = "str_replace (lit ''...'') (lit ''[PAUSE]'')"
  let ?C = "str_replace (lit ''  '') (lit '' '')"
  let ?y = "add_content_markers x"
  have y: "?y = strip (?C (?P x))"
    using False by (rule add_content_markers_long)
  from False have "3 \<le> length (strip x)" by simp
  then have len: "3 \<le> length ?y"
    unfolding y by (rule normalised_length)
  have sy: "strip ?y = ?y"
    unfolding y by (rule strip_strip)
  have nd: "\<not> sublist (lit ''...'') ?y"
    unfolding y by (rule normalised_no_dots)
  have "\<not> length (strip ?y) < 3" using len sy by simp
  then have "add_content_markers ?y = strip (?C (?P ?y))"
    by (rule add_content_markers_long)
  moreover have "?P ?y = ?y"
    by (rule str_replace_no_occurrence [OF _ nd]) (simp add: lit_dots)
  ultimately have yy: "add_content_markers ?y = strip (?C ?y)" by simp
  show ?thesis
  proof (cases "sublist (lit ''  '') ?y")
    case True
    have "length (?C ?y) < length ?y"
      by (rule length_str_replace_less [OF _ _ True]) (simp_all add: lit_two_spaces lit_space)
    moreover have "length (strip (?C ?y)) \<le> length (?C ?y)"
      by (rule length_strip_le)
    ultimately have "length (add_content_markers ?y) < length ?y"
      unfolding yy by simp
    then have "add_content_markers ?y \<noteq> ?y" by auto
    with True show ?thesis by simp
  next
    case no: False
    have "?C ?y = ?y"
      by (rule str_replace_no_occurrence [OF _ no]) (simp add: lit_two_spaces)
    with yy sy have "add_content_markers ?y = ?y" by simp
    with no show ?thesis by simp
  qed
qed

lemma collapse_leading_space:
  assumes "prefix [32] (str_replace (lit ''  '') (lit '' '') s)"
  shows "prefix [32] s"
proof (cases s)
  case Nil
  with assms show ?thesis by (simp add: lit_two_spaces)
next
  case (Cons c cs)
  have ne: "lit ''  '' \<noteq> []" by (simp add: lit_two_spaces)
  show ?thesis
  proof (cases "prefix (lit ''  '') (c # cs)")
    case True
    then have "c = 32" by (simp add: lit_two_spaces)
    with Cons show ?thesis by simp
  next
    case False
    have "str_replace (lit ''  '') (lit '' '') s =
          c # str_replace (lit ''  '') (lit '' '') cs"
      unfolding Cons by (rule str_replace_copy [OF ne False])
    with assms have "c = 32" by simp
    with Cons show ?thesis by simp
  qed
qed

lemma collapse_no_pair:
  "\<not> sublist [32, 32, 32] s \<Longrightarrow>
     \<not> sublist [32, 32] (str_replace (lit ''  '') (lit '' '') s)"
proof (induction s rule: length_induct)
  case (1 s)
  note IH = 1(1) [rule_format]
  let ?C = "str_replace (lit ''  '') (lit '' '')"
  have ne: "lit ''  '' \<noteq> []" by (simp add: lit_two_spaces)
  show ?case
  proof (cases s)
    case Nil
    show ?thesis unfolding Nil by (simp add: lit_two_spaces)
  next
    case (Cons c cs)
    show ?thesis
    proof (cases "prefix (lit ''  '') (c # cs)")
      case True
      then obtain cs' where c: "c = 32" and cs: "cs = 32 # cs'"
        by (cases cs) (auto simp: lit_two_spaces)
      have eq: "?C s = 32 # ?C cs'"
        unfolding Cons using str_replace_match [OF ne True, of "lit '' ''"]
        by (simp add: cs lit_two_spaces lit_space)
      have nt: "\<not> sublist [32, 32, 32] cs'"
        using 1(2) unfolding Cons c cs by (simp add: sublist_Cons_right)
      have "length cs' < length s" unfolding Cons cs by simp
      then have ih: "\<not> sublist [32, 32] (?C cs')" using nt by (rule IH)
      have "\<not> prefix [32] (?C cs')"
      proof
        assume "prefix [32] (?C cs')"
        then have "prefix [32] cs'" by (rule collapse_leading_space)
        then have "prefix [32, 32, 32] (32 # 32 # cs')" by simp
        then have "sublist [32, 32, 32] (32 # 32 # cs')" by (rule prefix_imp_sublist)
        with 1(2) show False unfolding Cons c cs by blast
      qed
      with ih show ?thesis unfolding eq by (simp add: sublist_Cons_right)
    next
      case False
      have eq: "?C s = c # ?C cs"
        unfolding Cons by (rule str_replace_copy [OF ne False])
      have nt: "\<not> sublist [32, 32, 32] cs"
        using 1(2) unfolding Cons by (simp add: sublist_Cons_right)
      have "length cs < length s" unfolding Cons by simp
      then have ih: "\<not> sublist [32, 32] (?C cs)" using nt by (rule IH)
      have "\<not> prefix [32, 32] (c # ?C cs)"
      proof
        assume "prefix [32, 32] (c # ?C cs)"
        then have c: "c = 32" and "prefix [32] (?C cs)" by auto
        then have "prefix [32] cs" using collapse_leading_space by blast
        with c have "prefix (lit ''  '') (c # cs)" by (simp add: lit_two_spaces)
        with False show False by blast
      qed
      with ih show ?thesis unfolding eq by (simp add: sublist_Cons_right)
    qed
  qed
qed

lemma normalised_no_pair:
  assumes "\<not> sublist (lit ''   '') x"
  shows "\<not> sublist (lit ''  '') (add_content_markers x)"
proof (cases "length (strip x) < 3")
  case True
  then have "add_content_markers x = lit ''[UNCLEAR]''"
    by (rule add_content_markers_short)
  then show ?thesis by (simp only: unclear_no_two_spaces) simp
next
  case False
  let ?P = "str_replace (lit ''...'') (lit ''[PAUSE]'')"
  let ?C = "str_replace (lit ''  '') (lit '' '')"
  have y: "add_content_markers x = strip (?C (?P x))"
    using False by (rule add_content_markers_long)
  have x3: "\<not> sublist [32, 32, 32] x" using assms by (simp add: lit_def)
  have "\<not> sublist [32, 32, 32] (?P x)"
    by (rule str_replace_no_triple) (simp_all add: lit_dots lit_pause x3)
  then have c: "\<not> sublist [32, 32] (?C (?P x))" by (rule collapse_no_pair)
  have "sublist (strip (?C (?P x))) (?C (?P x))" by (rule sublist_strip)
  then have "sublist [32, 32] (strip (?C (?P x))) \<Longrightarrow> sublist [32, 32] (?C (?P x))"
    by (rule sublist_order.order.trans [rotated])
  with c show ?thesis unfolding y lit_two_spaces by blast
qed

subsection \<open>Applying the normaliser twice\<close>

text \<open>
  C3, as stated, fails. A run of three spaces between two letters becomes a run of two
  spaces in the first application (the replacement of two spaces by one is a single
  pass from left to right), and a single space in the second.
\<close>

theorem add_content_markers_not_idempotent:
  "add_content_markers (add_content_markers (lit ''a   b'')) \<noteq>
   add_content_markers (lit ''a   b'')"
proof -
  have a: "add_content_markers (lit ''a   b'') = lit ''a  b''"
    by (simp add: add_content_markers_def strip_def isspace_def lit_def Let_def)
  have b: "add_content_markers (lit ''a  b'') = lit ''a b''"
    by (simp add: add_content_markers_def strip_def isspace_def lit_def Let_def)
  show ?thesis unfolding a b by (simp add: lit_def)
qed

text \<open>
  C3, amended. Applying \<^verbatim>\<open>add_content_markers\<close> twice gives the same as applying it
  once exactly for those inputs whose normalised text contains no two consecutive
  spaces; in particular for every input that contains no run of three or more
  consecutive spaces.
\<close>

theorem add_content_markers_idempotent_iff:
  "(add_content_markers (add_content_markers x) = add_content_markers x \<longleftrightarrow>
      \<not> sublist (lit ''  '') (add_content_markers x)) \<and>
   (\<not> sublist (lit ''   '') x \<longrightarrow>
      add_content_markers (add_content_markers x) = add_content_markers x)"
proof
  show "add_content_markers (add_content_markers x) = add_content_markers x \<longleftrightarrow>
      \<not> sublist (lit ''  '') (add_content_markers x)"
    by (rule markers_fixed_iff_no_pair)
next
  show "\<not> sublist (lit ''   '') x \<longrightarrow>
      add_content_markers (add_content_markers x) = add_content_markers x"
  proof
    assume "\<not> sublist (lit ''   '') x"
    then have "\<not> sublist (lit ''  '') (add_content_markers x)"
      by (rule normalised_no_pair)
    then show "add_content_markers (add_content_markers x) = add_content_markers x"
      using markers_fixed_iff_no_pair [of x] by blast
  qed
qed

theorem add_content_markers_idempotent_iff_witness:
  "\<not> sublist (lit ''   '') (lit ''wait... ok  then'') \<and>
   add_content_markers (lit ''wait... ok  then'') = lit ''wait[PAUSE] ok then'' \<and>
   add_content_markers (add_content_markers (lit ''wait... ok  then'')) =
     add_content_markers (lit ''wait... ok  then'')"
proof -
  have h: "\<not> sublist (lit ''   '') (lit ''wait... ok  then'')"
    by (simp add: lit_def sublist_Cons_right)
  have e: "add_content_markers (lit ''wait... ok  then'') = lit ''wait[PAUSE] ok then''"
    by (simp add: add_content_markers_def strip_def isspace_def lit_def Let_def)
  from add_content_markers_idempotent_iff [of "lit ''wait... ok  then''"] h e
  show ?thesis by blast
qed

section \<open>Properties of the statistics\<close>

subsection \<open>Missing confidence scores\<close>

lemma confidences_score_absent_as:
  "confidences (map (score_absent_as (- 2)) segs) = confidences segs"
  by (simp add: confidences_def score_absent_as_def split: option.splits)

lemma quality_score_absent_as:
  "get_audio_quality_estimate (r\<lparr>res_segments := map (score_absent_as (- 1)) segs\<rparr>) =
   get_audio_quality_estimate (r\<lparr>res_segments := segs\<rparr>)"
proof -
  have h: "(\<lambda>seg. case avg_logprob seg of Some c \<Rightarrow> c | None \<Rightarrow> - 1) \<circ> score_absent_as (- 1)
      = (\<lambda>seg. case avg_logprob seg of Some c \<Rightarrow> c | None \<Rightarrow> - 1)"
    by (rule ext) (simp add: score_absent_as_def split: option.splits)
  show ?thesis
    by (simp add: get_audio_quality_estimate_def Let_def h)
qed

lemma quality_partly_scored:
  "get_audio_quality_estimate \<lparr>res_duration = None, res_segments = partly_scored\<rparr> =
   lit ''Medium''"
  by (simp add: get_audio_quality_estimate_def partly_scored_def Let_def)

lemma quality_partly_scored_minus_2:
  "get_audio_quality_estimate
     \<lparr>res_duration = None, res_segments = map (score_absent_as (- 2)) partly_scored\<rparr> =
   lit ''Low''"
  by (simp add: get_audio_quality_estimate_def partly_scored_def Let_def score_absent_as_def)

text \<open>
  C4, as stated, fails for the audio-quality classification. With one segment scored
  \<open>-0.2\<close> and one segment without a score, \<^verbatim>\<open>get_audio_quality_estimate\<close> answers
  \<^verbatim>\<open>Medium\<close> (it averages \<open>-0.2\<close> and \<open>-1\<close>); with \<open>-2\<close> written in for the missing
  score it answers \<^verbatim>\<open>Low\<close>.
\<close>

theorem audio_quality_not_minus_2:
  "get_audio_quality_estimate \<lparr>res_duration = None, res_segments = partly_scored\<rparr> \<noteq>
   get_audio_quality_estimate
     \<lparr>res_duration = None, res_segments = map (score_absent_as (- 2)) partly_scored\<rparr>"
  by (simp add: quality_partly_scored quality_partly_scored_minus_2) (simp add: lit_def)

text \<open>
  C4, amended. A segment without a confidence score is treated as having the score
  \<open>-2\<close> in the confidence list of the statistics, and so in the average confidence and
  the three bucket counts computed from that list; the audio-quality classification
  treats it as having the score \<open>-1\<close> in the average it classifies.
\<close>

theorem missing_confidence_defaults:
  "confidences (map (\<lambda>seg. seg\<lparr>avg_logprob := None\<rparr>) segs) = replicate (length segs) (- 2) \<and>
   confidences (map (score_absent_as (- 2)) segs) = confidences segs \<and>
   avg_confidence (map (score_absent_as (- 2)) segs) = avg_confidence segs \<and>
   high_confidence_segments (map (score_absent_as (- 2)) segs) = high_confidence_segments segs \<and>
   medium_confidence_segments (map (score_absent_as (- 2)) segs) =
     medium_confidence_segments segs \<and>
   low_confidence_segments (map (score_absent_as (- 2)) segs) = low_confidence_segments segs \<and>
   get_audio_quality_estimate (r\<lparr>res_segments := map (score_absent_as (- 1)) segs\<rparr>) =
     get_audio_quality_estimate (r\<lparr>res_segments := segs\<rparr>)"
proof (intro conjI)
  show "confidences (map (\<lambda>seg. seg\<lparr>avg_logprob := None\<rparr>) segs) = replicate (length segs) (- 2)"
    by (induction segs) (simp_all add: confidences_def)
  show "confidences (map (score_absent_as (- 2)) segs) = confidences segs"
    by (rule confidences_score_absent_as)
  show "avg_confidence (map (score_absent_as (- 2)) segs) = avg_confidence segs"
    unfolding avg_confidence_def confidences_score_absent_as ..
  show "high_confidence_segments (map (score_absent_as (- 2)) segs) =
        high_confidence_segments segs"
    unfolding high_confidence_segments_def confidences_score_absent_as ..
  show "medium_confidence_segments (map (score_absent_as (- 2)) segs) =
        medium_confidence_segments segs"
    unfolding medium_confidence_segments_def confidences_score_absent_as ..
  show "low_confidence_segments (map (score_absent_as (- 2)) segs) =
        low_confidence_segments segs"
    unfolding low_confidence_segments_def confidences_score_absent_as ..
  show "get_audio_quality_estimate (r\<lparr>res_segments := map (score_absent_as (- 1)) segs\<rparr>) =
        get_audio_quality_estimate (r\<lparr>res_segments := segs\<rparr>)"
    by (rule quality_score_absent_as)
qed

subsection \<open>The empty segment sequence\<close>

text \<open>
  C1. On an empty segment sequence the statistics should be built without a division by
  zero, the three confidence percentages being computed against a non-zero denominator
  or defaulting to 0. The code does not do so: the averages and extremes of lines 343
  to 366 and the ratio of line 400 are guarded, but the percentages of lines 390 to 392
  divide by \<^verbatim>\<open>len(segments)\<close> without a guard. For a result whose segment list is empty,
  whatever its duration, the construction of the metadata ends in
  \<^verbatim>\<open>ZeroDivisionError\<close> at the first of them.
\<close>

theorem build_metadata_empty_raises:
  "build_metadata \<lparr>res_duration = dur, res_segments = []\<rparr> = Inl ZeroDivisionError"
  by (simp add: build_metadata_def py_truediv_def)

subsection \<open>The speech-versus-pause ratio\<close>

lemma unrounded_ratio_negative:
  "0 < d \<Longrightarrow> d < total_pause_time segs \<Longrightarrow> (d - total_pause_time segs) / d * 100 < 0"
  by (simp add: field_simps)

text \<open>
  C10. The ratio is not clamped: there are inputs with a positive audio duration and a
  total pause time above it for which \<open>(audio_duration - total_pause_time) /
  audio_duration * 100\<close> is negative, and so is the value stored in the metadata.
\<close>

theorem speech_vs_pause_ratio_unclamped:
  "\<exists>d segs ratio.
     0 < d \<and> d < total_pause_time segs \<and> (d - total_pause_time segs) / d * 100 < 0 \<and>
     map_sum (\<lambda>e. e) md_speech_vs_pause_ratio
       (build_metadata \<lparr>res_duration = Some d, res_segments = segs\<rparr>) = Inr ratio \<and>
     ratio < 0"
proof -
  let ?segs = "res_segments long_pause_result"
  have p: "total_pause_time ?segs = 4"
    by (simp add: total_pause_time_def pauses_def pauses_step_def long_pause_result_def)
  have r: "long_pause_result = \<lparr>res_duration = Some 1, res_segments = ?segs\<rparr>"
    by (simp add: long_pause_result_def)
  have m: "map_sum (\<lambda>e. e) md_speech_vs_pause_ratio (build_metadata long_pause_result) =
           Inr (- 300)"
    by (simp add: build_metadata_def long_pause_result_def py_truediv_def Let_def
        speech_vs_pause_ratio_def total_pause_time_def pauses_def pauses_step_def
        py_round_def round_half_even_def)
  have "(0::real) < 1 \<and> 1 < total_pause_time ?segs \<and>
        (1 - total_pause_time ?segs) / 1 * 100 < 0 \<and>
        map_sum (\<lambda>e. e) md_speech_vs_pause_ratio
          (build_metadata \<lparr>res_duration = Some 1, res_segments = ?segs\<rparr>) = Inr (- 300) \<and>
        (- 300 :: real) < 0"
    using m by (simp add: p r [symmetric])
  then show ?thesis by blast
qed


subsection \<open>Pauses\<close>

lemma fold_pauses_step:
  "fold (pauses_step segs) is acc =
     acc @ filter (\<lambda>p. 0 < p) (map (\<lambda>i. seg_start (segs ! i) - seg_end (segs ! (i - 1))) is)"
  by (induction "is" arbitrary: acc) (simp_all add: pauses_step_def Let_def)

lemma pauses_eq_filter:
  "pauses segs =
     filter (\<lambda>p. 0 < p)
       (map (\<lambda>i. seg_start (segs ! i) - seg_end (segs ! (i - 1))) [1..<length segs])"
  by (simp add: pauses_def fold_pauses_step)

lemma fold_greater_eq_max:
  "fold (\<lambda>y m. if y > m then y else m) xs (x::real) = fold max xs x"
proof -
  have "(\<lambda>y m. if y > m then y else m) = (max :: real \<Rightarrow> real \<Rightarrow> real)"
    by (intro ext) (simp add: max_def)
  then show ?thesis by simp
qed

lemma py_max_eq_Max: "xs \<noteq> [] \<Longrightarrow> py_max xs = Max (set xs)"
  by (cases xs) (simp_all add: fold_greater_eq_max Max.set_eq_fold del: set_simps)

lemma build_metadata_Inr:
  assumes "build_metadata r = Inr md"
  shows "res_segments r \<noteq> [] \<and>
    md_total_pauses md = length (pauses (res_segments r)) \<and>
    md_avg_pause_duration md = py_round (avg_pause_duration (res_segments r)) 2 \<and>
    md_longest_pause md = py_round (longest_pause (res_segments r)) 2 \<and>
    md_total_pause_time md = py_round (total_pause_time (res_segments r)) 2 \<and>
    md_speech_vs_pause_ratio md =
      speech_vs_pause_ratio (case res_duration r of Some d \<Rightarrow> d | None \<Rightarrow> 0) (res_segments r)"
  using assms
  by (auto simp: build_metadata_def py_truediv_def Let_def split: if_splits)

text \<open>
  C8. The pause list holds \<open>start[i] - end[i-1]\<close> of an adjacent pair exactly when that
  difference is strictly positive, in the order of the pairs; zero and negative gaps are
  left out, not clamped. The pause count, the average, the maximum and the total pause
  time of the metadata are computed from this filtered list (and rounded to two
  decimals).
\<close>

theorem pauses_positive_gaps_only:
  "pauses segs =
     filter (\<lambda>p. 0 < p)
       (map (\<lambda>i. seg_start (segs ! i) - seg_end (segs ! (i - 1))) [1..<length segs]) \<and>
   (build_metadata r = Inr md \<longrightarrow>
      md_total_pauses md = length (pauses (res_segments r)) \<and>
      md_avg_pause_duration md =
        py_round (if pauses (res_segments r) = [] then 0
                  else sum_list (pauses (res_segments r)) /
                       real (length (pauses (res_segments r)))) 2 \<and>
      md_longest_pause md =
        py_round (if pauses (res_segments r) = [] then 0
                  else Max (set (pauses (res_segments r)))) 2 \<and>
      md_total_pause_time md = py_round (sum_list (pauses (res_segments r))) 2)"
proof (intro conjI impI)
  show "pauses segs =
     filter (\<lambda>p. 0 < p)
       (map (\<lambda>i. seg_start (segs ! i) - seg_end (segs ! (i - 1))) [1..<length segs])"
    by (rule pauses_eq_filter)
next
  assume a: "build_metadata r = Inr md"
  note f = build_metadata_Inr [OF a]
  show "md_total_pauses md = length (pauses (res_segments r))"
    using f by simp
  show "md_avg_pause_duration md =
        py_round (if pauses (res_segments r) = [] then 0
                  else sum_list (pauses (res_segments r)) /
                       real (length (pauses (res_segments r)))) 2"
    using f by (simp add: avg_pause_duration_def)
  show "md_longest_pause md =
        py_round (if pauses (res_segments r) = [] then 0
                  else Max (set (pauses (res_segments r)))) 2"
    using f by (simp add: longest_pause_def py_max_eq_Max)
  show "md_total_pause_time md = py_round (sum_list (pauses (res_segments r))) 2"
    using f by (simp add: total_pause_time_def)
qed

lemma pauses_scenario_D: "pauses (res_segments scenario_D) = [1]"
  by (simp add: pauses_def pauses_step_def scenario_D_def Let_def)

lemma py_round_1: "py_round 1 2 = 1"
  by (simp add: py_round_def round_half_even_def Let_def)

theorem pauses_positive_gaps_only_witness:
  "pauses (res_segments scenario_D) = [1] \<and>
   (\<exists>md. build_metadata scenario_D = Inr md \<and> md_total_pauses md = 1 \<and>
      md_avg_pause_duration md = 1 \<and> md_longest_pause md = 1 \<and> md_total_pause_time md = 1)"
proof -
  obtain md where md: "build_metadata scenario_D = Inr md"
    by (simp add: build_metadata_def py_truediv_def scenario_D_def Let_def)
  from pauses_positive_gaps_only [of "res_segments scenario_D" scenario_D md] md
  show ?thesis
    by (simp add: pauses_scenario_D py_round_1)
qed


section \<open>Properties of the formatting utilities\<close>

lemma length_str_nat_pos: "0 < length (str_nat n)"
  by (subst str_nat.simps) simp

lemma length_str_nat_small: "n < 10 \<Longrightarrow> length (str_nat n) = 1"
  by (subst str_nat.simps) simp

lemma length_str_nat_large: "\<not> n < 10 \<Longrightarrow> 2 \<le> length (str_nat n)"
  using length_str_nat_pos [of "n div 10"] by (subst str_nat.simps) (simp add: Suc_le_eq)

lemma format_02d_nonneg: "0 \<le> x \<Longrightarrow> format_02d x = zero_pad2 (nat x)"
proof (cases "x < 10")
  case True
  assume "0 \<le> x"
  with True have "nat x < 10" by simp
  then have "length (str_nat (nat x)) = 1" by (rule length_str_nat_small)
  with True \<open>0 \<le> x\<close> show ?thesis
    by (simp add: format_02d_def zero_pad2_def)
next
  case False
  assume "0 \<le> x"
  with False have "\<not> nat x < 10" by simp
  then have "2 \<le> length (str_nat (nat x))" by (rule length_str_nat_large)
  with False \<open>0 \<le> x\<close> show ?thesis
    by (simp add: format_02d_def zero_pad2_def)
qed

lemma floor_div_const:
  fixes s :: real
  shows "\<lfloor>s / 60\<rfloor> = \<lfloor>s\<rfloor> div 60" and "\<lfloor>s / 3600\<rfloor> = \<lfloor>s\<rfloor> div 3600"
  using floor_divide_real_eq_div [of 60 s] floor_divide_real_eq_div [of 3600 s] by simp_all

lemma py_int_floordiv:
  "0 \<le> s \<Longrightarrow> 0 < b \<Longrightarrow> py_int (py_floordiv s b) = \<lfloor>s / b\<rfloor>"
  by (simp add: py_int_def py_floordiv_def)

lemma py_mod_nonneg: "0 < b \<Longrightarrow> 0 \<le> py_mod s b"
proof -
  assume b: "0 < b"
  have "of_int \<lfloor>s / b\<rfloor> \<le> s / b" by simp
  with b have "of_int \<lfloor>s / b\<rfloor> * b \<le> s"
    by (simp only: pos_le_divide_eq)
  then have "b * of_int \<lfloor>s / b\<rfloor> \<le> s"
    by (simp only: mult.commute)
  then show ?thesis by (simp add: py_mod_def)
qed

lemma py_int_mod_60: "py_int (py_mod s 60) = \<lfloor>s\<rfloor> mod 60"
proof -
  have "py_int (py_mod s 60) = \<lfloor>py_mod s 60\<rfloor>"
    using py_mod_nonneg [of 60 s] by (simp add: py_int_def)
  also have "\<dots> = \<lfloor>s - of_int (60 * \<lfloor>s / 60\<rfloor>)\<rfloor>"
    by (simp add: py_mod_def)
  also have "\<dots> = \<lfloor>s\<rfloor> - 60 * \<lfloor>s / 60\<rfloor>"
    by (rule floor_diff_of_int)
  also have "\<dots> = \<lfloor>s\<rfloor> mod 60"
    by (simp add: floor_div_const minus_mult_div_eq_mod)
  finally show ?thesis .
qed

lemma floor_py_mod_3600: "\<lfloor>py_mod s 3600\<rfloor> = \<lfloor>s\<rfloor> mod 3600"
proof -
  have "\<lfloor>py_mod s 3600\<rfloor> = \<lfloor>s - of_int (3600 * \<lfloor>s / 3600\<rfloor>)\<rfloor>"
    by (simp add: py_mod_def)
  also have "\<dots> = \<lfloor>s\<rfloor> - 3600 * \<lfloor>s / 3600\<rfloor>"
    by (rule floor_diff_of_int)
  also have "\<dots> = \<lfloor>s\<rfloor> mod 3600"
    by (simp add: floor_div_const minus_mult_div_eq_mod)
  finally show ?thesis .
qed

lemma py_int_minutes: "py_int (py_floordiv (py_mod s 3600) 60) = \<lfloor>s\<rfloor> mod 3600 div 60"
proof -
  have "0 \<le> py_mod s 3600" by (rule py_mod_nonneg) simp
  then have "py_int (py_floordiv (py_mod s 3600) 60) = \<lfloor>py_mod s 3600 / 60\<rfloor>"
    by (simp add: py_int_floordiv)
  also have "\<dots> = \<lfloor>py_mod s 3600\<rfloor> div 60" by (rule floor_div_const)
  finally show ?thesis by (simp add: floor_py_mod_3600)
qed

text \<open>
  C9. For every non-negative number of seconds \<open>s\<close>, \<^verbatim>\<open>format_timestamp\<close> returns
  \<open>floor (s / 60)\<close> and \<open>floor (s mod 60)\<close>, each zero-padded to width 2, joined by a
  colon. Both numbers are functions of the truncated seconds \<open>floor s\<close>, so nothing is
  rounded. \<^verbatim>\<open>format_duration\<close> returns hours, minutes and seconds, each zero-padded
  to width 2, when \<open>floor (s / 3600) > 0\<close>, and minutes and seconds otherwise.
\<close>

theorem format_timestamp_duration:
  assumes "0 \<le> s"
  shows "format_timestamp s =
           zero_pad2 (nat \<lfloor>s / 60\<rfloor>) @ lit '':'' @
           zero_pad2 (nat \<lfloor>s - 60 * of_int \<lfloor>s / 60\<rfloor>\<rfloor>) \<and>
         \<lfloor>s / 60\<rfloor> = \<lfloor>s\<rfloor> div 60 \<and>
         \<lfloor>s - 60 * of_int \<lfloor>s / 60\<rfloor>\<rfloor> = \<lfloor>s\<rfloor> mod 60 \<and>
         format_duration s =
           (if 0 < \<lfloor>s / 3600\<rfloor>
            then zero_pad2 (nat \<lfloor>s / 3600\<rfloor>) @ lit '':'' @
                 zero_pad2 (nat (\<lfloor>s\<rfloor> mod 3600 div 60)) @ lit '':'' @
                 zero_pad2 (nat (\<lfloor>s\<rfloor> mod 60))
            else zero_pad2 (nat \<lfloor>s / 60\<rfloor>) @ lit '':'' @ zero_pad2 (nat (\<lfloor>s\<rfloor> mod 60)))"
proof -
  have fl: "0 \<le> \<lfloor>s\<rfloor>" using assms by simp
  have m60: "\<lfloor>s - 60 * of_int \<lfloor>s / 60\<rfloor>\<rfloor> = \<lfloor>s\<rfloor> mod 60"
    using py_int_mod_60 [of s] py_mod_nonneg [of 60 s] by (simp add: py_int_def py_mod_def)
  have mins: "py_int (py_floordiv s 60) = \<lfloor>s / 60\<rfloor>"
    using assms by (simp add: py_int_floordiv)
  have mins0: "0 \<le> \<lfloor>s / 60\<rfloor>" using fl by (simp add: floor_div_const pos_imp_zdiv_nonneg_iff)
  have secs0: "0 \<le> \<lfloor>s\<rfloor> mod 60" by simp
  have ts: "format_timestamp s =
           zero_pad2 (nat \<lfloor>s / 60\<rfloor>) @ lit '':'' @
           zero_pad2 (nat \<lfloor>s - 60 * of_int \<lfloor>s / 60\<rfloor>\<rfloor>)"
    using mins0 secs0
    by (simp add: format_timestamp_def Let_def mins py_int_mod_60 m60 format_02d_nonneg)
  have hrs: "py_int (py_floordiv s 3600) = \<lfloor>s / 3600\<rfloor>"
    using assms by (simp add: py_int_floordiv)
  have hrs0: "0 \<le> \<lfloor>s / 3600\<rfloor>" using fl by (simp add: floor_div_const pos_imp_zdiv_nonneg_iff)
  have mm0: "0 \<le> \<lfloor>s\<rfloor> mod 3600 div 60" by (simp add: pos_imp_zdiv_nonneg_iff)
  have small: "\<not> 0 < \<lfloor>s / 3600\<rfloor> \<Longrightarrow> \<lfloor>s\<rfloor> mod 3600 div 60 = \<lfloor>s / 60\<rfloor>"
  proof -
    assume "\<not> 0 < \<lfloor>s / 3600\<rfloor>"
    with hrs0 have "\<lfloor>s\<rfloor> div 3600 = 0" by (simp add: floor_div_const)
    then have "\<lfloor>s\<rfloor> mod 3600 = \<lfloor>s\<rfloor>"
      using div_mult_mod_eq [of "\<lfloor>s\<rfloor>" 3600] by simp
    then show ?thesis by (simp add: floor_div_const)
  qed
  have dur: "format_duration s =
           (if 0 < \<lfloor>s / 3600\<rfloor>
            then zero_pad2 (nat \<lfloor>s / 3600\<rfloor>) @ lit '':'' @
                 zero_pad2 (nat (\<lfloor>s\<rfloor> mod 3600 div 60)) @ lit '':'' @
                 zero_pad2 (nat (\<lfloor>s\<rfloor> mod 60))
            else zero_pad2 (nat \<lfloor>s / 60\<rfloor>) @ lit '':'' @ zero_pad2 (nat (\<lfloor>s\<rfloor> mod 60)))"
    using hrs0 mm0 secs0 small
    by (simp add: format_duration_def Let_def hrs py_int_minutes py_int_mod_60 format_02d_nonneg)
  from ts m60 dur show ?thesis by (simp add: floor_div_const)
qed

theorem format_timestamp_duration_witness:
  "(0::real) \<le> 125.7 \<and> format_timestamp 125.7 = lit ''02:05'' \<and>
   (0::real) \<le> 3725.9 \<and> format_duration 3725.9 = lit ''01:02:05'' \<and>
   (0::real) \<le> 59.999 \<and> format_duration 59.999 = lit ''00:59''"
proof -
  have h: "(0::real) \<le> 125.7" "(0::real) \<le> 3725.9" "(0::real) \<le> 59.999" by simp_all
  have a: "format_timestamp 125.7 = lit ''02:05''"
    using format_timestamp_duration [OF h(1)]
    by (simp add: zero_pad2_def str_nat.simps lit_def)
  have b: "format_duration 3725.9 = lit ''01:02:05''"
    using format_timestamp_duration [OF h(2)]
    by (simp add: zero_pad2_def str_nat.simps lit_def)
  have c: "format_duration 59.999 = lit ''00:59''"
    using format_timestamp_duration [OF h(3)]
    by (simp add: zero_pad2_def str_nat.simps lit_def)
  from a b c show ?thesis by simp
qed

end
